theory Spec2Isabelle
  imports Main "HOL-Library.Sublist"
begin

section \<open>Errors\<close>

text \<open>
  The source stops in three ways that are not a normal return: a failed \<open>assert\<close>; a
  read through a pointer to an \<open>Entry\<close> that has been deleted or was never allocated,
  or of a vector past its end; and the \<open>exit\<close> of \<open>Debug()\<close>. Each is a value of the
  model. A loop that does not end is the value \<open>None\<close> of the functions that contain it.
\<close>

datatype error = AssertFailed | InvalidPointer | DebugExit

section \<open>LatticeStringRepository\<close>

text \<open>
  An \<open>Entry\<close> is the pair \<open>(parent, i)\<close>. A pointer to an entry is a natural number:
  \<open>0\<close> is \<open>NULL\<close>, and \<open>Suc k\<close> points to the \<open>k\<close>-th entry the repository allocated.
  The member \<open>set_\<close> is the list of the allocated entries in allocation order; its hash
  and equality compare \<open>parent\<close> and \<open>i\<close> exactly, so \<open>set_.find\<close> is a search for
  an equal pair.
\<close>

type_synonym Entry = "nat \<times> int"
type_synonym StringId = nat
type_synonym Repository = "Entry list"

definition EmptyString :: StringId where
  "EmptyString = 0"

fun set_find :: "Repository \<Rightarrow> Entry \<Rightarrow> StringId option" where
  "set_find [] e = None"
| "set_find (x # xs) e = (if x = e then Some (Suc 0) else map_option Suc (set_find xs e))"

definition Successor :: "Repository \<Rightarrow> StringId \<Rightarrow> int \<Rightarrow> StringId \<times> Repository" where
  "Successor repo parent i =
     (case set_find repo (parent, i) of
        None \<Rightarrow> (Suc (length repo), repo @ [(parent, i)])
      | Some entry_ptr \<Rightarrow> (entry_ptr, repo))"

text \<open>
  \<open>ConvertToVector\<close> walks the parent pointers. Reading an entry that is not allocated
  is \<open>InvalidPointer\<close>. An entry is allocated after its parent, so the parent pointer is
  smaller than the entry's own; the walk stops with \<open>InvalidPointer\<close> on a store where
  this is not so.
\<close>

function ConvertToVector :: "Repository \<Rightarrow> StringId \<Rightarrow> error + int list" where
  "ConvertToVector repo entry =
     (if entry = 0 then Inr []
      else if length repo < entry then Inl InvalidPointer
      else if fst (repo ! (entry - 1)) < entry then
        (case ConvertToVector repo (fst (repo ! (entry - 1))) of
           Inl e \<Rightarrow> Inl e
         | Inr out \<Rightarrow> Inr (out @ [snd (repo ! (entry - 1))]))
      else Inl InvalidPointer)"
  by pat_completeness auto
termination
  by (relation "measure (\<lambda>(s, e). e)") auto

declare ConvertToVector.simps [simp del]

text \<open>The loop \<open>for (i...) ans = Successor(ans, v[i])\<close> shared by several members.\<close>

fun Successor_loop :: "Repository \<Rightarrow> StringId \<Rightarrow> int list \<Rightarrow> StringId \<times> Repository" where
  "Successor_loop repo ans [] = (ans, repo)"
| "Successor_loop repo ans (x # xs) =
     (case Successor repo ans x of (ans', repo') \<Rightarrow> Successor_loop repo' ans' xs)"

definition ConvertFromVector :: "Repository \<Rightarrow> int list \<Rightarrow> StringId \<times> Repository" where
  "ConvertFromVector repo vec = Successor_loop repo 0 vec"

definition Concatenate :: "Repository \<Rightarrow> StringId \<Rightarrow> StringId \<Rightarrow> error + StringId \<times> Repository" where
  "Concatenate repo a b =
     (if a = 0 then Inr (b, repo)
      else if b = 0 then Inr (a, repo)
      else case ConvertToVector repo b of
             Inl e \<Rightarrow> Inl e
           | Inr v \<Rightarrow> Inr (Successor_loop repo a v))"

text \<open>
  \<open>ReduceToCommonPrefix(a, b)\<close>: \<open>b\<close> is first cut to the length of \<open>a\<close>, then to the
  first position where the two differ.
\<close>

fun common_len :: "int list \<Rightarrow> int list \<Rightarrow> nat" where
  "common_len (x # xs) (y # ys) = (if y = x then Suc (common_len xs ys) else 0)"
| "common_len _ _ = 0"

definition ReduceToCommonPrefix :: "Repository \<Rightarrow> StringId \<Rightarrow> int list \<Rightarrow> error + int list" where
  "ReduceToCommonPrefix repo a b =
     (case ConvertToVector repo a of
        Inl e \<Rightarrow> Inl e
      | Inr a_vec \<Rightarrow>
          (let b1 = (if length b > length a_vec then take (length a_vec) b else b);
               b_sz = common_len a_vec b1
           in Inr (if b_sz \<noteq> length b1 then take b_sz b1 else b1)))"

definition RemovePrefix :: "Repository \<Rightarrow> StringId \<Rightarrow> nat \<Rightarrow> error + StringId \<times> Repository" where
  "RemovePrefix repo a n =
     (if n = 0 then Inr (a, repo)
      else case ConvertToVector repo a of
             Inl e \<Rightarrow> Inl e
           | Inr a_vec \<Rightarrow>
               if length a_vec \<ge> n then Inr (Successor_loop repo 0 (drop n a_vec))
               else Inl AssertFailed)"

definition Destroy :: "Repository \<Rightarrow> Repository" where
  "Destroy repo = []"

text \<open>
  The repository's invariant: no two allocated entries are equal, and every entry's
  parent was allocated before it.
\<close>

definition wf_repo :: "Repository \<Rightarrow> bool" where
  "wf_repo repo \<longleftrightarrow> distinct repo \<and> (\<forall>k < length repo. fst (repo ! k) \<le> k)"


section \<open>Weights, arcs and the input automaton\<close>

text \<open>
  The template parameter \<open>Weight\<close> is not part of the source: its operations are a
  parameter of every function that uses them. \<open>Divide_w\<close> is \<open>Divide\<close> with
  \<open>DIVIDE_LEFT\<close>, \<open>ApproxEqual_w\<close> is \<open>ApproxEqual\<close> at the determinizer's
  \<open>delta_\<close>, \<open>Compare_w\<close> is the two-argument \<open>Compare\<close> on weights, and
  \<open>Default_w\<close> is the value of a \<open>Weight\<close> declared without an initialiser.
  \<open>Default_s\<close> is the same for a \<open>StringId\<close>: what the pointer
  \<open>next_common_str\<close> of \<open>ProcessTransition\<close> holds when it is read without having
  been assigned.
\<close>

record 'w Weight_ops =
  Plus_w :: "'w \<Rightarrow> 'w \<Rightarrow> 'w"
  Times_w :: "'w \<Rightarrow> 'w \<Rightarrow> 'w"
  Divide_w :: "'w \<Rightarrow> 'w \<Rightarrow> 'w"
  Zero_w :: 'w
  One_w :: 'w
  Compare_w :: "'w \<Rightarrow> 'w \<Rightarrow> int"
  ApproxEqual_w :: "'w \<Rightarrow> 'w \<Rightarrow> bool"
  Default_w :: 'w
  Default_s :: StringId

record 'w Arc =
  ilabel :: int
  olabel :: int
  weight_a :: 'w
  nextstate :: int

definition kNoStateId :: int where
  "kNoStateId = - 1"

text \<open>
  The input \<open>Fst\<close> is read through \<open>Start()\<close>, \<open>Final(s)\<close>, the arc iterator
  of a state and the property bit \<open>kILabelSorted\<close>.
\<close>

record 'w Fst =
  Start :: int
  Final :: "int \<Rightarrow> 'w"
  Arcs :: "int \<Rightarrow> 'w Arc list"
  ILabelSorted :: bool

section \<open>Elements, temporary arcs and the comparison of (weight, string) pairs\<close>

record 'w Element =
  state :: int
  string :: StringId
  weight :: 'w

record 'w TempArc =
  ilabel_t :: int
  string_t :: StringId
  nextstate_t :: int
  weight_t :: 'w

text \<open>
  The loop of \<open>Compare\<close> over two vectors of the same length; running off its end is
  the \<open>assert(0)\<close>.
\<close>

fun Compare_vec :: "int list \<Rightarrow> int list \<Rightarrow> error + int" where
  "Compare_vec (a # as) (b # bs) =
     (if a < b then Inr (- 1) else if a > b then Inr 1 else Compare_vec as bs)"
| "Compare_vec _ _ = Inl AssertFailed"

definition Compare ::
  "'w Weight_ops \<Rightarrow> Repository \<Rightarrow> 'w \<Rightarrow> StringId \<Rightarrow> 'w \<Rightarrow> StringId \<Rightarrow> error + int" where
  "Compare W repo a_w a_str b_w b_str =
     (let weight_comp = Compare_w W a_w b_w in
      if weight_comp \<noteq> 0 then Inr weight_comp
      else if a_str = b_str then Inr 0
      else case ConvertToVector repo a_str of
             Inl e \<Rightarrow> Inl e
           | Inr a_vec \<Rightarrow>
               (case ConvertToVector repo b_str of
                  Inl e \<Rightarrow> Inl e
                | Inr b_vec \<Rightarrow>
                    if length a_vec < length b_vec then Inr (- 1)
                    else if length a_vec > length b_vec then Inr 1
                    else Compare_vec a_vec b_vec))"

section \<open>EpsilonClosure\<close>

text \<open>
  \<open>cur_subset\<close> is a \<open>std::set\<close> ordered by state: a list of Elements in increasing
  state order with one Element per state. \<open>set_insert\<close> is \<open>insert\<close>, returning the
  new set and whether the Element went in; \<open>set_at\<close> reads the Element
  \<open>pr.first\<close> points to (there is one whenever \<open>set_insert\<close> did not insert), and
  \<open>set_assign\<close> overwrites its string and weight.
\<close>

fun set_insert :: "'w Element \<Rightarrow> 'w Element list \<Rightarrow> 'w Element list \<times> bool" where
  "set_insert e [] = ([e], True)"
| "set_insert e (x # xs) =
     (if state e < state x then (e # x # xs, True)
      else if state x < state e then (case set_insert e xs of (ys, b) \<Rightarrow> (x # ys, b))
      else (x # xs, False))"

fun set_at :: "int \<Rightarrow> 'w Element list \<Rightarrow> 'w Element option" where
  "set_at s [] = None"
| "set_at s (x # xs) = (if state x = s then Some x else set_at s xs)"

fun set_assign :: "'w Element \<Rightarrow> 'w Element list \<Rightarrow> 'w Element list" where
  "set_assign e [] = []"
| "set_assign e (x # xs) =
     (if state x = state e then x\<lparr>string := string e, weight := weight e\<rparr> # xs
      else x # set_assign e xs)"

fun set_insert_all :: "'w Element list \<Rightarrow> 'w Element list \<Rightarrow> 'w Element list" where
  "set_insert_all [] cur_subset = cur_subset"
| "set_insert_all (e # es) cur_subset = set_insert_all es (fst (set_insert e cur_subset))"

text \<open>
  The string of the Element an arc leads to: the source's string when the arc's output
  label is epsilon, its \<open>Successor\<close> otherwise.
\<close>

definition next_string :: "Repository \<Rightarrow> StringId \<Rightarrow> int \<Rightarrow> StringId \<times> Repository" where
  "next_string repo str ol = (if ol = 0 then (str, repo) else Successor repo str ol)"

text \<open>
  The loop over the arcs of \<open>elem.state\<close>. The queue is the vector \<open>queue\<close>, its back
  the last element of the list.
\<close>

fun EpsilonClosure_arcs ::
  "'w Weight_ops \<Rightarrow> bool \<Rightarrow> 'w Element \<Rightarrow> 'w Arc list \<Rightarrow>
   'w Element list \<times> 'w Element list \<times> Repository \<Rightarrow>
   error + 'w Element list \<times> 'w Element list \<times> Repository" where
  "EpsilonClosure_arcs W sorted_in elem [] st = Inr st"
| "EpsilonClosure_arcs W sorted_in elem (arc # arcs) (cur_subset, queue, repo) =
     (if sorted_in \<and> ilabel arc \<noteq> 0 then Inr (cur_subset, queue, repo)
      else if ilabel arc = 0 \<and> weight_a arc \<noteq> Zero_w W then
        (case next_string repo (string elem) (olabel arc) of
           (str, repo1) \<Rightarrow>
             (let next_elem = \<lparr>state = nextstate arc, string = str,
                               weight = Times_w W (weight elem) (weight_a arc)\<rparr>
              in case set_insert next_elem cur_subset of
                   (cur1, True) \<Rightarrow>
                     EpsilonClosure_arcs W sorted_in elem arcs (cur1, queue @ [next_elem], repo1)
                 | (cur1, False) \<Rightarrow>
                     (case set_at (state next_elem) cur_subset of
                        None \<Rightarrow> Inl InvalidPointer
                      | Some old \<Rightarrow>
                          (case Compare W repo1 (weight next_elem) (string next_elem)
                                  (weight old) (string old) of
                             Inl e \<Rightarrow> Inl e
                           | Inr cmp \<Rightarrow>
                               if cmp = 1 then
                                 EpsilonClosure_arcs W sorted_in elem arcs
                                   (set_assign next_elem cur_subset, queue @ [next_elem], repo1)
                               else EpsilonClosure_arcs W sorted_in elem arcs
                                      (cur_subset, queue, repo1)))))
      else EpsilonClosure_arcs W sorted_in elem arcs (cur_subset, queue, repo))"

partial_function (option) EpsilonClosure_loop ::
  "'w Weight_ops \<Rightarrow> 'w Fst \<Rightarrow> 'w Element list \<times> 'w Element list \<times> Repository \<Rightarrow>
   (error + 'w Element list \<times> Repository) option" where
  "EpsilonClosure_loop W ifst st =
     (case st of (cur_subset, queue, repo) \<Rightarrow>
        if queue = [] then Some (Inr (cur_subset, repo))
        else case EpsilonClosure_arcs W (ILabelSorted ifst) (last queue)
                    (Arcs ifst (state (last queue))) (cur_subset, butlast queue, repo) of
               Inl e \<Rightarrow> Some (Inl e)
             | Inr st1 \<Rightarrow> EpsilonClosure_loop W ifst st1)"

declare EpsilonClosure_loop.simps [code]

definition EpsilonClosure ::
  "'w Weight_ops \<Rightarrow> 'w Fst \<Rightarrow> Repository \<Rightarrow> 'w Element list \<Rightarrow>
   (error + 'w Element list \<times> Repository) option" where
  "EpsilonClosure W ifst repo subs =
     EpsilonClosure_loop W ifst (set_insert_all subs [], subs, repo)"

section \<open>ConvertToMinimal\<close>

datatype OsymbolOrFinal = OSF_UNKNOWN | OSF_NO | OSF_YES

text \<open>
  \<open>ArcTpl\<close> is not part of the source, and the member \<open>osymbol\<close> that
  \<open>IsOsymbolOrFinal\<close> reads from an arc is not among the members the rest of the source
  uses (\<open>ilabel\<close>, \<open>olabel\<close>, \<open>weight\<close>, \<open>nextstate\<close>): the accessor is a
  parameter.
\<close>

definition IsOsymbolOrFinal ::
  "'w Weight_ops \<Rightarrow> 'w Fst \<Rightarrow> ('w Arc \<Rightarrow> int) \<Rightarrow> OsymbolOrFinal list \<Rightarrow> int \<Rightarrow>
   error + bool \<times> OsymbolOrFinal list" where
  "IsOsymbolOrFinal W ifst osymbol cache s =
     (if s < 0 then Inl AssertFailed
      else
        let c1 = (if length cache \<le> nat s
                  then cache @ replicate (nat s + 1 - length cache) OSF_UNKNOWN else cache)
        in if c1 ! nat s = OSF_NO then Inr (False, c1)
           else if c1 ! nat s = OSF_YES then Inr (True, c1)
           else
             let c2 = (if Final ifst s \<noteq> Zero_w W then c1[nat s := OSF_YES] else c1)
             in if list_ex (\<lambda>arc. osymbol arc \<noteq> 0) (Arcs ifst s)
                then Inr (True, c2[nat s := OSF_YES])
                else Inr (False, c2[nat s := OSF_NO]))"

fun ConvertToMinimal_loop ::
  "'w Weight_ops \<Rightarrow> 'w Fst \<Rightarrow> ('w Arc \<Rightarrow> int) \<Rightarrow> 'w Element list \<Rightarrow> OsymbolOrFinal list \<Rightarrow>
   error + 'w Element list \<times> OsymbolOrFinal list" where
  "ConvertToMinimal_loop W ifst osymbol [] cache = Inr ([], cache)"
| "ConvertToMinimal_loop W ifst osymbol (cur_in # rest) cache =
     (case IsOsymbolOrFinal W ifst osymbol cache (state cur_in) of
        Inl e \<Rightarrow> Inl e
      | Inr (keep, cache1) \<Rightarrow>
          (case ConvertToMinimal_loop W ifst osymbol rest cache1 of
             Inl e \<Rightarrow> Inl e
           | Inr (out, cache2) \<Rightarrow> Inr (if keep then cur_in # out else out, cache2)))"

definition ConvertToMinimal ::
  "'w Weight_ops \<Rightarrow> 'w Fst \<Rightarrow> ('w Arc \<Rightarrow> int) \<Rightarrow> 'w Element list \<Rightarrow> OsymbolOrFinal list \<Rightarrow>
   error + 'w Element list \<times> OsymbolOrFinal list" where
  "ConvertToMinimal W ifst osymbol subs cache =
     (if subs = [] then Inl AssertFailed
      else ConvertToMinimal_loop W ifst osymbol subs cache)"

section \<open>NormalizeSubset\<close>

text \<open>The first loop, over the Elements after the first: the total weight and the common prefix.\<close>

fun NormalizeSubset_total ::
  "'w Weight_ops \<Rightarrow> Repository \<Rightarrow> 'w Element list \<Rightarrow> 'w \<times> int list \<Rightarrow> error + 'w \<times> int list" where
  "NormalizeSubset_total W repo [] acc = Inr acc"
| "NormalizeSubset_total W repo (e # es) (w, common_prefix) =
     (case ReduceToCommonPrefix repo (string e) common_prefix of
        Inl err \<Rightarrow> Inl err
      | Inr common_prefix1 \<Rightarrow>
          NormalizeSubset_total W repo es (Plus_w W w (weight e), common_prefix1))"

text \<open>The second loop: every Element is divided by the total and loses the prefix.\<close>

fun NormalizeSubset_divide ::
  "'w Weight_ops \<Rightarrow> 'w \<Rightarrow> nat \<Rightarrow> 'w Element list \<Rightarrow> Repository \<Rightarrow>
   error + 'w Element list \<times> Repository" where
  "NormalizeSubset_divide W w prefix_len [] repo = Inr ([], repo)"
| "NormalizeSubset_divide W w prefix_len (e # es) repo =
     (case RemovePrefix repo (string e) prefix_len of
        Inl err \<Rightarrow> Inl err
      | Inr (str, repo1) \<Rightarrow>
          (case NormalizeSubset_divide W w prefix_len es repo1 of
             Inl err \<Rightarrow> Inl err
           | Inr (out, repo2) \<Rightarrow>
               Inr (e\<lparr>weight := Divide_w W (weight e) w, string := str\<rparr> # out, repo2)))"

text \<open>
  \<open>NormalizeSubset\<close> returns the rewritten Elements, \<open>common_str\<close>, \<open>tot_weight\<close>
  and the repository.
\<close>

definition NormalizeSubset ::
  "'w Weight_ops \<Rightarrow> Repository \<Rightarrow> 'w Element list \<Rightarrow>
   error + 'w Element list \<times> StringId \<times> 'w \<times> Repository" where
  "NormalizeSubset W repo elems =
     (case elems of
        [] \<Rightarrow> Inl AssertFailed
      | e0 # rest \<Rightarrow>
          (case ConvertToVector repo (string e0) of
             Inl err \<Rightarrow> Inl err
           | Inr common_prefix0 \<Rightarrow>
               (case NormalizeSubset_total W repo rest (weight e0, common_prefix0) of
                  Inl err \<Rightarrow> Inl err
                | Inr (w, common_prefix) \<Rightarrow>
                    if w = Zero_w W then Inl AssertFailed
                    else
                      (case NormalizeSubset_divide W w (length common_prefix) elems repo of
                         Inl err \<Rightarrow> Inl err
                       | Inr (elems1, repo1) \<Rightarrow>
                           (case ConvertFromVector repo1 common_prefix of
                              (common_str, repo2) \<Rightarrow> Inr (elems1, common_str, w, repo2))))))"

section \<open>MakeSubsetUnique\<close>

text \<open>
  The two nested loops as one pass: \<open>cur_out\<close> is the Element being built; an input
  Element with the same state is merged into it, one with another state closes it and
  becomes the next \<open>cur_out\<close>.
\<close>

fun MakeSubsetUnique_from ::
  "'w Weight_ops \<Rightarrow> Repository \<Rightarrow> 'w Element \<Rightarrow> 'w Element list \<Rightarrow> error + 'w Element list" where
  "MakeSubsetUnique_from W repo cur_out [] = Inr [cur_out]"
| "MakeSubsetUnique_from W repo cur_out (cur_in # rest) =
     (if state cur_in = state cur_out then
        (case Compare W repo (weight cur_in) (string cur_in) (weight cur_out) (string cur_out) of
           Inl e \<Rightarrow> Inl e
         | Inr cmp \<Rightarrow>
             MakeSubsetUnique_from W repo
               (if cmp = 1 then cur_out\<lparr>string := string cur_in, weight := weight cur_in\<rparr>
                else cur_out) rest)
      else
        (case MakeSubsetUnique_from W repo cur_in rest of
           Inl e \<Rightarrow> Inl e
         | Inr out \<Rightarrow> Inr (cur_out # out)))"

definition MakeSubsetUnique ::
  "'w Weight_ops \<Rightarrow> Repository \<Rightarrow> 'w Element list \<Rightarrow> error + 'w Element list" where
  "MakeSubsetUnique W repo subs =
     (case subs of
        [] \<Rightarrow> Inr []
      | e0 # rest \<Rightarrow>
          if length subs < 2 \<or> state e0 \<le> state (hd rest)
          then MakeSubsetUnique_from W repo e0 rest
          else Inl AssertFailed)"


section \<open>The determinizer's state and its two hash tables\<close>

text \<open>
  \<open>SubsetEqual\<close>: the same states and strings, and weights that are \<open>ApproxEqual\<close>.
\<close>

definition SubsetEqual :: "'w Weight_ops \<Rightarrow> 'w Element list \<Rightarrow> 'w Element list \<Rightarrow> bool" where
  "SubsetEqual W s1 s2 \<longleftrightarrow>
     list_all2 (\<lambda>e1 e2. state e1 = state e2 \<and> string e1 = string e2 \<and>
                         ApproxEqual_w W (weight e1) (weight e2)) s1 s2"

text \<open>
  A hash table is the list of its (key, value) pairs in insertion order. \<open>SubsetKey\<close>
  only chooses the bucket; a lookup returns a pair whose key is \<open>SubsetEqual\<close> to the
  one asked for, here the oldest such pair.
\<close>

definition hash_find ::
  "'w Weight_ops \<Rightarrow> ('w Element list \<times> 'v) list \<Rightarrow> 'w Element list \<Rightarrow> 'v option" where
  "hash_find W h key = map_option snd (find (\<lambda>kv. SubsetEqual W (fst kv) key) h)"

fun hash_assign ::
  "'w Weight_ops \<Rightarrow> ('w Element list \<times> 'v) list \<Rightarrow> 'w Element list \<Rightarrow> 'v \<Rightarrow>
   ('w Element list \<times> 'v) list" where
  "hash_assign W [] key v = [(key, v)]"
| "hash_assign W (kv # h) key v =
     (if SubsetEqual W (fst kv) key then (fst kv, v) # h else kv # hash_assign W h key v)"

text \<open>
  The members of \<open>LatticeDeterminizer\<close> that change during a run. \<open>ifst_\<close> is only
  read, and is a parameter of the functions.
\<close>

record 'w Determinizer =
  output_states :: "'w Element list list"
  output_arcs :: "'w TempArc list list"
  minimal_hash :: "('w Element list \<times> int) list"
  initial_hash :: "('w Element list \<times> 'w Element) list"
  queue :: "int list"
  osymbol_or_final :: "OsymbolOrFinal list"
  repository :: Repository

definition new_Determinizer :: "'w Determinizer" where
  "new_Determinizer =
     \<lparr>output_states = [], output_arcs = [], minimal_hash = [], initial_hash = [],
      queue = [], osymbol_or_final = [], repository = []\<rparr>"

definition MinimalToStateId ::
  "'w Weight_ops \<Rightarrow> 'w Determinizer \<Rightarrow> 'w Element list \<Rightarrow> int \<times> 'w Determinizer" where
  "MinimalToStateId W st subs =
     (case hash_find W (minimal_hash st) subs of
        Some ans \<Rightarrow> (ans, st)
      | None \<Rightarrow>
          (let ans = int (length (output_arcs st))
           in (ans, st\<lparr>output_states := output_states st @ [subs],
                       output_arcs := output_arcs st @ [[]],
                       minimal_hash := hash_assign W (minimal_hash st) subs ans,
                       queue := queue st @ [ans]\<rparr>)))"

text \<open>
  \<open>InitialToStateId\<close> returns the output state, \<open>remaining_weight\<close>,
  \<open>common_prefix\<close> and the new state of the determinizer. It assigns
  \<open>*remaining_weight\<close> and \<open>*common_prefix\<close> only when it finds the subset in
  \<open>initial_hash_\<close>. When it does not, it stores the weight and the string that
  \<open>NormalizeSubset\<close> took out in the new entry of the table only, and its caller
  \<open>ProcessTransition\<close> goes on with the two locals it declared without an
  initialiser: \<open>Default_w\<close> and \<open>Default_s\<close>.
\<close>

definition InitialToStateId ::
  "'w Weight_ops \<Rightarrow> 'w Fst \<Rightarrow> ('w Arc \<Rightarrow> int) \<Rightarrow> 'w Determinizer \<Rightarrow> 'w Element list \<Rightarrow>
   (error + int \<times> 'w \<times> StringId \<times> 'w Determinizer) option" where
  "InitialToStateId W ifst osymbol st subset_in =
     (case hash_find W (initial_hash st) subset_in of
        Some elem \<Rightarrow> Some (Inr (state elem, weight elem, string elem, st))
      | None \<Rightarrow>
          (case EpsilonClosure W ifst (repository st) subset_in of
             None \<Rightarrow> None
           | Some (Inl e) \<Rightarrow> Some (Inl e)
           | Some (Inr (subs1, repo1)) \<Rightarrow>
               (case ConvertToMinimal W ifst osymbol subs1 (osymbol_or_final st) of
                  Inl e \<Rightarrow> Some (Inl e)
                | Inr (subs2, cache1) \<Rightarrow>
                    (case NormalizeSubset W repo1 subs2 of
                       Inl e \<Rightarrow> Some (Inl e)
                     | Inr (subs3, entry_string, entry_weight, repo2) \<Rightarrow>
                         (case MinimalToStateId W
                                 (st\<lparr>osymbol_or_final := cache1, repository := repo2\<rparr>) subs3 of
                            (ans, st1) \<Rightarrow>
                              Some (Inr (ans, Default_w W, Default_s W,
                                st1\<lparr>initial_hash :=
                                      hash_assign W (initial_hash st1) subset_in
                                        \<lparr>state = ans, string = entry_string,
                                         weight = entry_weight\<rparr>\<rparr>)))))))"

section \<open>ProcessFinal\<close>

fun ProcessFinal_loop ::
  "'w Weight_ops \<Rightarrow> 'w Fst \<Rightarrow> Repository \<Rightarrow> 'w Element list \<Rightarrow> bool \<times> StringId \<times> 'w \<Rightarrow>
   error + bool \<times> StringId \<times> 'w" where
  "ProcessFinal_loop W ifst repo [] acc = Inr acc"
| "ProcessFinal_loop W ifst repo (elem # rest) (is_final, final_string, final_weight) =
     (let this_final_weight = Final ifst (state elem);
          this_final_string = string elem
      in if this_final_weight \<noteq> Zero_w W then
           (case Compare W repo this_final_weight this_final_string final_weight final_string of
              Inl e \<Rightarrow> Inl e
            | Inr cmp \<Rightarrow>
                if cmp = 1
                then ProcessFinal_loop W ifst repo rest (True, this_final_string, this_final_weight)
                else ProcessFinal_loop W ifst repo rest (is_final, final_string, final_weight))
         else ProcessFinal_loop W ifst repo rest (is_final, final_string, final_weight))"

text \<open>\<open>output_arcs_[s].push_back(temp_arc)\<close>.\<close>

definition push_arc :: "'w Determinizer \<Rightarrow> int \<Rightarrow> 'w TempArc \<Rightarrow> error + 'w Determinizer" where
  "push_arc st s temp_arc =
     (if 0 \<le> s \<and> nat s < length (output_arcs st)
      then Inr (st\<lparr>output_arcs := (output_arcs st)[nat s := output_arcs st ! nat s @ [temp_arc]]\<rparr>)
      else Inl InvalidPointer)"

definition ProcessFinal ::
  "'w Weight_ops \<Rightarrow> 'w Fst \<Rightarrow> 'w Determinizer \<Rightarrow> int \<Rightarrow> error + 'w Determinizer" where
  "ProcessFinal W ifst st output_state =
     (if 0 \<le> output_state \<and> nat output_state < length (output_states st) then
        (case ProcessFinal_loop W ifst (repository st) (output_states st ! nat output_state)
                (False, 0, Default_w W) of
           Inl e \<Rightarrow> Inl e
         | Inr (is_final, final_string, final_weight) \<Rightarrow>
             if is_final then
               push_arc st output_state
                 \<lparr>ilabel_t = 0, string_t = final_string, nextstate_t = kNoStateId,
                  weight_t = final_weight\<rparr>
             else Inr st)
      else Inl InvalidPointer)"

section \<open>ProcessTransition and ProcessTransitions\<close>

definition ProcessTransition ::
  "'w Weight_ops \<Rightarrow> 'w Fst \<Rightarrow> ('w Arc \<Rightarrow> int) \<Rightarrow> 'w Determinizer \<Rightarrow> int \<Rightarrow> int \<Rightarrow>
   'w Element list \<Rightarrow> (error + 'w Determinizer) option" where
  "ProcessTransition W ifst osymbol st s il subs =
     (case MakeSubsetUnique W (repository st) subs of
        Inl e \<Rightarrow> Some (Inl e)
      | Inr subs1 \<Rightarrow>
          (case NormalizeSubset W (repository st) subs1 of
             Inl e \<Rightarrow> Some (Inl e)
           | Inr (subs2, common_str, tot_weight, repo1) \<Rightarrow>
               (case InitialToStateId W ifst osymbol (st\<lparr>repository := repo1\<rparr>) subs2 of
                  None \<Rightarrow> None
                | Some (Inl e) \<Rightarrow> Some (Inl e)
                | Some (Inr (next_state, next_tot_weight, next_common_str, st1)) \<Rightarrow>
                    (case Concatenate (repository st1) common_str next_common_str of
                       Inl e \<Rightarrow> Some (Inl e)
                     | Inr (common_str1, repo2) \<Rightarrow>
                         Some (push_arc (st1\<lparr>repository := repo2\<rparr>) s
                                 \<lparr>ilabel_t = il, string_t = common_str1,
                                  nextstate_t = next_state,
                                  weight_t = Times_w W tot_weight next_tot_weight\<rparr>)))))"

text \<open>
  \<open>PairComparator\<close>, and the sort of \<open>all_elems\<close> by it. \<open>std::sort\<close> leaves the
  order of pairs that compare equal open; the model keeps them in their order of arrival.
\<close>

definition PairComparator :: "int \<times> 'w Element \<Rightarrow> int \<times> 'w Element \<Rightarrow> bool" where
  "PairComparator p1 p2 =
     (if fst p1 < fst p2 then True
      else if fst p1 > fst p2 then False
      else state (snd p1) < state (snd p2))"

fun insert_pair :: "int \<times> 'w Element \<Rightarrow> (int \<times> 'w Element) list \<Rightarrow> (int \<times> 'w Element) list" where
  "insert_pair p [] = [p]"
| "insert_pair p (q # qs) = (if PairComparator p q then p # q # qs else q # insert_pair p qs)"

definition sort_pairs :: "(int \<times> 'w Element) list \<Rightarrow> (int \<times> 'w Element) list" where
  "sort_pairs ps = foldr insert_pair ps []"

text \<open>The pairs pushed for the arcs of one Element, and for all Elements of the subset.\<close>

fun all_elems_arcs ::
  "'w Weight_ops \<Rightarrow> 'w Element \<Rightarrow> 'w Arc list \<Rightarrow> Repository \<Rightarrow>
   (int \<times> 'w Element) list \<times> Repository" where
  "all_elems_arcs W elem [] repo = ([], repo)"
| "all_elems_arcs W elem (arc # arcs) repo =
     (if ilabel arc \<noteq> 0 \<and> weight_a arc \<noteq> Zero_w W then
        (case next_string repo (string elem) (olabel arc) of
           (str, repo1) \<Rightarrow>
             (case all_elems_arcs W elem arcs repo1 of
                (tl_elems, repo2) \<Rightarrow>
                  ((ilabel arc, \<lparr>state = nextstate arc, string = str,
                                 weight = Times_w W (weight elem) (weight_a arc)\<rparr>) # tl_elems,
                   repo2)))
      else all_elems_arcs W elem arcs repo)"

fun all_elems_subset ::
  "'w Weight_ops \<Rightarrow> 'w Fst \<Rightarrow> 'w Element list \<Rightarrow> Repository \<Rightarrow>
   (int \<times> 'w Element) list \<times> Repository" where
  "all_elems_subset W ifst [] repo = ([], repo)"
| "all_elems_subset W ifst (elem # rest) repo =
     (case all_elems_arcs W elem (Arcs ifst (state elem)) repo of
        (ps, repo1) \<Rightarrow>
          (case all_elems_subset W ifst rest repo1 of
             (tl_elems, repo2) \<Rightarrow> (ps @ tl_elems, repo2)))"

text \<open>The loop over the ranges of \<open>all_elems\<close> that share an input label.\<close>

function ProcessTransitions_ranges ::
  "'w Weight_ops \<Rightarrow> 'w Fst \<Rightarrow> ('w Arc \<Rightarrow> int) \<Rightarrow> int \<Rightarrow> (int \<times> 'w Element) list \<Rightarrow>
   'w Determinizer \<Rightarrow> (error + 'w Determinizer) option" where
  "ProcessTransitions_ranges W ifst osymbol s [] st = Some (Inr st)"
| "ProcessTransitions_ranges W ifst osymbol s (cur # rest) st =
     (case ProcessTransition W ifst osymbol st s (fst cur)
             (snd cur # map snd (takeWhile (\<lambda>p. fst p = fst cur) rest)) of
        None \<Rightarrow> None
      | Some (Inl e) \<Rightarrow> Some (Inl e)
      | Some (Inr st1) \<Rightarrow>
          ProcessTransitions_ranges W ifst osymbol s
            (dropWhile (\<lambda>p. fst p = fst cur) rest) st1)"
  by pat_completeness auto
termination
  by (relation "measure (\<lambda>(W, ifst, osymbol, s, ps, st). length ps)")
     (auto simp: length_dropWhile_le less_Suc_eq_le)

definition ProcessTransitions ::
  "'w Weight_ops \<Rightarrow> 'w Fst \<Rightarrow> ('w Arc \<Rightarrow> int) \<Rightarrow> 'w Determinizer \<Rightarrow> int \<Rightarrow>
   (error + 'w Determinizer) option" where
  "ProcessTransitions W ifst osymbol st output_state =
     (if 0 \<le> output_state \<and> nat output_state < length (output_states st) then
        (case all_elems_subset W ifst (output_states st ! nat output_state) (repository st) of
           (all_elems, repo1) \<Rightarrow>
             ProcessTransitions_ranges W ifst osymbol output_state (sort_pairs all_elems)
               (st\<lparr>repository := repo1\<rparr>))
      else Some (Inl InvalidPointer))"

section \<open>ProcessState, Initialize and Determinize\<close>

definition ProcessState ::
  "'w Weight_ops \<Rightarrow> 'w Fst \<Rightarrow> ('w Arc \<Rightarrow> int) \<Rightarrow> 'w Determinizer \<Rightarrow> int \<Rightarrow>
   (error + 'w Determinizer) option" where
  "ProcessState W ifst osymbol st output_state =
     (case ProcessFinal W ifst st output_state of
        Inl e \<Rightarrow> Some (Inl e)
      | Inr st1 \<Rightarrow> ProcessTransitions W ifst osymbol st1 output_state)"

text \<open>
  \<open>Initialize\<close>. Its first statement only pre-sizes the two hash tables and changes
  nothing a lookup can see.
\<close>

definition Initialize ::
  "'w Weight_ops \<Rightarrow> 'w Fst \<Rightarrow> ('w Arc \<Rightarrow> int) \<Rightarrow> 'w Determinizer \<Rightarrow>
   (error + 'w Determinizer) option" where
  "Initialize W ifst osymbol st =
     (let start_id = Start ifst in
      if start_id \<noteq> kNoStateId then
        (case EpsilonClosure W ifst (repository st)
                [\<lparr>state = start_id, string = EmptyString, weight = One_w W\<rparr>] of
           None \<Rightarrow> None
         | Some (Inl e) \<Rightarrow> Some (Inl e)
         | Some (Inr (subs1, repo1)) \<Rightarrow>
             (case ConvertToMinimal W ifst osymbol subs1 (osymbol_or_final st) of
                Inl e \<Rightarrow> Some (Inl e)
              | Inr (subs2, cache1) \<Rightarrow>
                  if output_arcs st = [] \<and> output_states st = [] then
                    Some (Inr (st\<lparr>output_states := output_states st @ [subs2],
                                  output_arcs := output_arcs st @ [[]],
                                  minimal_hash := hash_assign W (minimal_hash st) subs2 0,
                                  queue := queue st @ [0],
                                  osymbol_or_final := cache1,
                                  repository := repo1\<rparr>))
                  else Some (Inl AssertFailed)))
      else Some (Inr st))"

text \<open>
  \<open>Determinize\<close>. \<open>debug\<close> is \<open>debug_ptr && *debug_ptr\<close>; \<open>Debug()\<close> ends the
  process.
\<close>

partial_function (option) Determinize ::
  "'w Weight_ops \<Rightarrow> 'w Fst \<Rightarrow> ('w Arc \<Rightarrow> int) \<Rightarrow> bool \<Rightarrow> 'w Determinizer \<Rightarrow>
   (error + 'w Determinizer) option" where
  "Determinize W ifst osymbol debug st =
     (if queue st = [] then Some (Inr st)
      else
        (case ProcessState W ifst osymbol (st\<lparr>queue := butlast (queue st)\<rparr>) (last (queue st)) of
           None \<Rightarrow> None
         | Some (Inl e) \<Rightarrow> Some (Inl e)
         | Some (Inr st1) \<Rightarrow>
             if debug then Some (Inl DebugExit)
             else Determinize W ifst osymbol debug st1))"

declare Determinize.simps [code]

text \<open>The constructor: \<open>Initialize\<close>, then \<open>Determinize\<close>.\<close>

definition LatticeDeterminizer ::
  "'w Weight_ops \<Rightarrow> 'w Fst \<Rightarrow> ('w Arc \<Rightarrow> int) \<Rightarrow> bool \<Rightarrow> (error + 'w Determinizer) option" where
  "LatticeDeterminizer W ifst osymbol debug =
     (case Initialize W ifst osymbol new_Determinizer of
        None \<Rightarrow> None
      | Some (Inl e) \<Rightarrow> Some (Inl e)
      | Some (Inr st) \<Rightarrow> Determinize W ifst osymbol debug st)"

text \<open>
  \<open>FreeMostMemory\<close> empties everything but \<open>output_arcs_\<close>; the repository's
  entries are deleted with it. It also deletes \<open>ifst_\<close>, which nothing reads afterwards.
\<close>

definition FreeMostMemory :: "'w Determinizer \<Rightarrow> 'w Determinizer" where
  "FreeMostMemory st =
     st\<lparr>minimal_hash := [], initial_hash := [], repository := Destroy (repository st),
        output_states := [], osymbol_or_final := [], queue := []\<rparr>"


section \<open>The output automaton\<close>

text \<open>
  Modelled from the spec: \<open>MutableFst\<close>, the automaton the result is written to, is
  OpenFst's interface and not part of the source. The spec's section 6 describes the
  result as an automaton of states with a start state, a final weight per state and a list
  of arcs \<open>(ilabel, olabel, weight, nextstate)\<close> per state; the model is that vector
  of states. \<open>AddState\<close> returns the number of states there were and gives the new
  state no arcs and the final weight \<open>Zero\<close>; \<open>DeleteStates\<close> leaves no state and no
  start state.
\<close>

record 'w MutableFst =
  start_m :: int
  states_m :: "('w \<times> 'w Arc list) list"

definition DeleteStates :: "'w MutableFst \<Rightarrow> 'w MutableFst" where
  "DeleteStates f = f\<lparr>start_m := kNoStateId, states_m := []\<rparr>"

definition SetStart :: "'w MutableFst \<Rightarrow> int \<Rightarrow> 'w MutableFst" where
  "SetStart f s = f\<lparr>start_m := s\<rparr>"

definition AddState :: "'w \<Rightarrow> 'w MutableFst \<Rightarrow> int \<times> 'w MutableFst" where
  "AddState zero f = (int (length (states_m f)), f\<lparr>states_m := states_m f @ [(zero, [])]\<rparr>)"

definition AddArc :: "'w MutableFst \<Rightarrow> int \<Rightarrow> 'w Arc \<Rightarrow> 'w MutableFst" where
  "AddArc f s arc =
     f\<lparr>states_m := (states_m f)[nat s := (fst (states_m f ! nat s), snd (states_m f ! nat s) @ [arc])]\<rparr>"

definition SetFinal :: "'w MutableFst \<Rightarrow> int \<Rightarrow> 'w \<Rightarrow> 'w MutableFst" where
  "SetFinal f s w = f\<lparr>states_m := (states_m f)[nat s := (w, snd (states_m f ! nat s))]\<rparr>"

text \<open>The loop that adds the basic states, \<open>n\<close> more of them from state \<open>s\<close> on.\<close>

fun Output_add_states :: "'w \<Rightarrow> int \<Rightarrow> nat \<Rightarrow> 'w MutableFst \<Rightarrow> error + 'w MutableFst" where
  "Output_add_states zero s 0 f = Inr f"
| "Output_add_states zero s (Suc n) f =
     (case AddState zero f of
        (news, f1) \<Rightarrow>
          if news = s then Output_add_states zero (s + 1) n f1 else Inl AssertFailed)"

section \<open>Output to the compact acceptor\<close>

text \<open>A \<open>CompactWeight\<close> is the pair of a weight and a label sequence.\<close>

fun Output_CompactArc_arcs ::
  "Repository \<Rightarrow> int \<Rightarrow> 'w TempArc list \<Rightarrow> ('w \<times> int list) MutableFst \<Rightarrow>
   error + ('w \<times> int list) MutableFst" where
  "Output_CompactArc_arcs repo this_state [] f = Inr f"
| "Output_CompactArc_arcs repo this_state (temp_arc # rest) f =
     (case ConvertToVector repo (string_t temp_arc) of
        Inl e \<Rightarrow> Inl e
      | Inr seq \<Rightarrow>
          if nextstate_t temp_arc = kNoStateId
          then Output_CompactArc_arcs repo this_state rest
                 (SetFinal f this_state (weight_t temp_arc, seq))
          else Output_CompactArc_arcs repo this_state rest
                 (AddArc f this_state
                    \<lparr>ilabel = ilabel_t temp_arc, olabel = ilabel_t temp_arc,
                     weight_a = (weight_t temp_arc, seq), nextstate = nextstate_t temp_arc\<rparr>))"

fun Output_CompactArc_states ::
  "Repository \<Rightarrow> int \<Rightarrow> 'w TempArc list list \<Rightarrow> ('w \<times> int list) MutableFst \<Rightarrow>
   error + ('w \<times> int list) MutableFst" where
  "Output_CompactArc_states repo this_state [] f = Inr f"
| "Output_CompactArc_states repo this_state (this_vec # rest) f =
     (case Output_CompactArc_arcs repo this_state this_vec f of
        Inl e \<Rightarrow> Inl e
      | Inr f1 \<Rightarrow> Output_CompactArc_states repo (this_state + 1) rest f1)"

definition Output_CompactArc ::
  "'w Weight_ops \<Rightarrow> 'w Determinizer \<Rightarrow> ('w \<times> int list) MutableFst \<Rightarrow> bool \<Rightarrow>
   error + ('w \<times> int list) MutableFst \<times> 'w Determinizer" where
  "Output_CompactArc W st ofst destroy =
     (let nStates = length (output_arcs st);
          st1 = (if destroy then FreeMostMemory st else st);
          f1 = SetStart (DeleteStates ofst) kNoStateId
      in if nStates = 0 then Inr (f1, st1)
         else
           (case Output_add_states (Zero_w W, []) 0 nStates f1 of
              Inl e \<Rightarrow> Inl e
            | Inr f2 \<Rightarrow>
                (case Output_CompactArc_states (repository st1) 0 (output_arcs st1)
                        (SetStart f2 0) of
                   Inl e \<Rightarrow> Inl e
                 | Inr f3 \<Rightarrow> Inr (f3, if destroy then st1\<lparr>output_arcs := []\<rparr> else st1))))"

section \<open>Output to the expanded automaton\<close>

text \<open>
  The loop that makes a sequence of new states, one per label of \<open>labels\<close>, from
  \<open>cur_state\<close> on: the first arc (\<open>first\<close>, the source's \<open>i == 0\<close>) carries
  \<open>il\<close> and \<open>w\<close>, the others epsilon and \<open>One\<close>. It returns the last state made.
\<close>

fun Output_chain ::
  "'w Weight_ops \<Rightarrow> int \<Rightarrow> 'w \<Rightarrow> bool \<Rightarrow> int list \<Rightarrow> int \<Rightarrow> 'w MutableFst \<Rightarrow>
   int \<times> 'w MutableFst" where
  "Output_chain W il w first [] cur_state f = (cur_state, f)"
| "Output_chain W il w first (l # ls) cur_state f =
     (case AddState (Zero_w W) f of
        (next_state, f1) \<Rightarrow>
          Output_chain W il w False ls next_state
            (AddArc f1 cur_state
               \<lparr>ilabel = (if first then il else 0), olabel = l,
                weight_a = (if first then w else One_w W), nextstate = next_state\<rparr>))"

definition Output_Arc_temp_arc ::
  "'w Weight_ops \<Rightarrow> Repository \<Rightarrow> int \<Rightarrow> 'w TempArc \<Rightarrow> 'w MutableFst \<Rightarrow> error + 'w MutableFst" where
  "Output_Arc_temp_arc W repo this_state temp_arc f =
     (case ConvertToVector repo (string_t temp_arc) of
        Inl e \<Rightarrow> Inl e
      | Inr seq \<Rightarrow>
          if nextstate_t temp_arc = kNoStateId then
            (case Output_chain W 0 (weight_t temp_arc) True seq this_state f of
               (cur_state, f1) \<Rightarrow>
                 Inr (SetFinal f1 cur_state (if seq = [] then weight_t temp_arc else One_w W)))
          else
            (case Output_chain W (ilabel_t temp_arc) (weight_t temp_arc) True (butlast seq)
                    this_state f of
               (cur_state, f1) \<Rightarrow>
                 Inr (AddArc f1 cur_state
                        \<lparr>ilabel = (if length seq \<le> 1 then ilabel_t temp_arc else 0),
                         olabel = (if seq \<noteq> [] then last seq else 0),
                         weight_a = (if length seq \<le> 1 then weight_t temp_arc else One_w W),
                         nextstate = nextstate_t temp_arc\<rparr>)))"

fun Output_Arc_arcs ::
  "'w Weight_ops \<Rightarrow> Repository \<Rightarrow> int \<Rightarrow> 'w TempArc list \<Rightarrow> 'w MutableFst \<Rightarrow>
   error + 'w MutableFst" where
  "Output_Arc_arcs W repo this_state [] f = Inr f"
| "Output_Arc_arcs W repo this_state (temp_arc # rest) f =
     (case Output_Arc_temp_arc W repo this_state temp_arc f of
        Inl e \<Rightarrow> Inl e
      | Inr f1 \<Rightarrow> Output_Arc_arcs W repo this_state rest f1)"

fun Output_Arc_states ::
  "'w Weight_ops \<Rightarrow> Repository \<Rightarrow> int \<Rightarrow> 'w TempArc list list \<Rightarrow> 'w MutableFst \<Rightarrow>
   error + 'w MutableFst" where
  "Output_Arc_states W repo this_state [] f = Inr f"
| "Output_Arc_states W repo this_state (this_vec # rest) f =
     (case Output_Arc_arcs W repo this_state this_vec f of
        Inl e \<Rightarrow> Inl e
      | Inr f1 \<Rightarrow> Output_Arc_states W repo (this_state + 1) rest f1)"

definition Output_Arc ::
  "'w Weight_ops \<Rightarrow> 'w Determinizer \<Rightarrow> 'w MutableFst \<Rightarrow> bool \<Rightarrow>
   error + 'w MutableFst \<times> 'w Determinizer" where
  "Output_Arc W st ofst destroy =
     (let nStates = length (output_arcs st);
          f1 = DeleteStates ofst
      in if nStates = 0 then Inr (SetStart f1 kNoStateId, st)
         else
           (let st1 = (if destroy then FreeMostMemory st else st)
            in case Output_add_states (Zero_w W) 0 nStates f1 of
                 Inl e \<Rightarrow> Inl e
               | Inr f2 \<Rightarrow>
                   (case Output_Arc_states W (repository st1) 0 (output_arcs st1)
                           (SetStart f2 0) of
                      Inl e \<Rightarrow> Inl e
                    | Inr f3 \<Rightarrow> Inr (f3, if destroy then st1\<lparr>output_arcs := []\<rparr> else st1))))"

section \<open>DeterminizeLattice\<close>

text \<open>
  The two overloads. Their \<open>assert\<close> that \<open>ofst\<close> and \<open>ifst\<close> are different objects
  holds of two values; the symbol tables they copy are not part of the model. They call
  \<open>Output\<close> with its default \<open>destroy = true\<close>.
\<close>

definition DeterminizeLattice_Arc ::
  "'w Weight_ops \<Rightarrow> 'w Fst \<Rightarrow> ('w Arc \<Rightarrow> int) \<Rightarrow> bool \<Rightarrow> 'w MutableFst \<Rightarrow>
   (error + 'w MutableFst) option" where
  "DeterminizeLattice_Arc W ifst osymbol debug ofst =
     (case LatticeDeterminizer W ifst osymbol debug of
        None \<Rightarrow> None
      | Some (Inl e) \<Rightarrow> Some (Inl e)
      | Some (Inr det) \<Rightarrow>
          (case Output_Arc W det ofst True of
             Inl e \<Rightarrow> Some (Inl e)
           | Inr (f, det1) \<Rightarrow> Some (Inr f)))"

definition DeterminizeLattice_CompactArc ::
  "'w Weight_ops \<Rightarrow> 'w Fst \<Rightarrow> ('w Arc \<Rightarrow> int) \<Rightarrow> bool \<Rightarrow> ('w \<times> int list) MutableFst \<Rightarrow>
   (error + ('w \<times> int list) MutableFst) option" where
  "DeterminizeLattice_CompactArc W ifst osymbol debug ofst =
     (case LatticeDeterminizer W ifst osymbol debug of
        None \<Rightarrow> None
      | Some (Inl e) \<Rightarrow> Some (Inl e)
      | Some (Inr det) \<Rightarrow>
          (case Output_CompactArc W det ofst True of
             Inl e \<Rightarrow> Some (Inl e)
           | Inr (f, det1) \<Rightarrow> Some (Inr f)))"


section \<open>A weight type and automata to run the functions on\<close>

text \<open>
  The tropical semiring over integer costs, with \<open>None\<close> the infinite cost \<open>Zero\<close>:
  \<open>Plus\<close> is the smaller cost, \<open>Times\<close> the sum of the costs, and \<open>Compare\<close>
  ranks the smaller cost higher, as it does for the lattice weights the determinizer is
  used with. A declared \<open>Weight\<close> holds the cost 0 and a declared \<open>StringId\<close>
  is \<open>NULL\<close>. The costs on the automata below are small integers, on which the sum
  and the order of floating-point costs are exact.
\<close>

definition tropical :: "int option Weight_ops" where
  "tropical =
     \<lparr>Plus_w = (\<lambda>a b. case a of None \<Rightarrow> b
                      | Some x \<Rightarrow> (case b of None \<Rightarrow> a | Some y \<Rightarrow> Some (min x y))),
      Times_w = (\<lambda>a b. case a of None \<Rightarrow> None
                      | Some x \<Rightarrow> (case b of None \<Rightarrow> None | Some y \<Rightarrow> Some (x + y))),
      Divide_w = (\<lambda>a b. case a of None \<Rightarrow> None
                      | Some x \<Rightarrow> (case b of None \<Rightarrow> None | Some y \<Rightarrow> Some (x - y))),
      Zero_w = None,
      One_w = Some 0,
      Compare_w = (\<lambda>a b. if a = b then 0
                      else case a of None \<Rightarrow> - 1
                      | Some x \<Rightarrow> (case b of None \<Rightarrow> 1 | Some y \<Rightarrow> if x < y then 1 else - 1)),
      ApproxEqual_w = (\<lambda>a b. a = b),
      Default_w = Some 0,
      Default_s = 0\<rparr>"

definition mk_arc :: "int \<Rightarrow> int \<Rightarrow> 'w \<Rightarrow> int \<Rightarrow> 'w Arc" where
  "mk_arc il ol w ns = \<lparr>ilabel = il, olabel = ol, weight_a = w, nextstate = ns\<rparr>"

definition mk_elem :: "int \<Rightarrow> StringId \<Rightarrow> 'w \<Rightarrow> 'w Element" where
  "mk_elem s str w = \<lparr>state = s, string = str, weight = w\<rparr>"

text \<open>State 0 with one arc, labelled 1:1 and of cost 3, to the final state 1, which has no arcs.\<close>

definition one_arc_fst :: "int option Fst" where
  "one_arc_fst =
     \<lparr>Start = 0,
      Final = (\<lambda>s. if s = 1 then Some 0 else None),
      Arcs = (\<lambda>s. if s = 0 then [mk_arc 1 1 (Some 3) 1] else []),
      ILabelSorted = False\<rparr>"


text \<open>
  State 0 with two arcs labelled 1 to state 1 and one labelled 2 to state 2; states 1
  and 2 are final and have a self-loop each, labelled 3.
\<close>

definition branch_fst :: "int option Fst" where
  "branch_fst =
     \<lparr>Start = 0,
      Final = (\<lambda>s. if s = 1 \<or> s = 2 then Some (- 1) else None),
      Arcs = (\<lambda>s. if s = 0 then [mk_arc 1 5 (Some 1) 1, mk_arc 2 6 (Some 2) 2, mk_arc 1 7 (Some 2) 1]
                   else if s = 1 then [mk_arc 3 8 (Some 1) 1]
                   else if s = 2 then [mk_arc 3 9 (Some 1) 2]
                   else []),
      ILabelSorted = False\<rparr>"

definition empty_fst :: "int option Fst" where
  "empty_fst = \<lparr>Start = kNoStateId, Final = (\<lambda>s. None), Arcs = (\<lambda>s. []), ILabelSorted = False\<rparr>"

text \<open>
  A repository holding the strings 7 (handle 1), 7 8 (handle 2) and 7 9 (handle 3), and a
  subset of two Elements with the strings 7 8 and 7 9.
\<close>

definition repo_ex :: Repository where
  "repo_ex = [(0, 7), (1, 8), (1, 9)]"

definition subset_ex :: "int option Element list" where
  "subset_ex = [mk_elem 0 2 (Some 1), mk_elem 1 3 (Some 4)]"

text \<open>
  A single state, final with cost 1, with a self-loop labelled 1:1 of cost 2, and the state
  of the determinizer when \<open>Initialize\<close> has run on it: the start subset is output
  state 0 and waits in the queue.
\<close>

definition final_loop_fst :: "int option Fst" where
  "final_loop_fst =
     \<lparr>Start = 0, Final = (\<lambda>s. if s = 0 then Some 1 else None),
      Arcs = (\<lambda>s. if s = 0 then [mk_arc 1 1 (Some 2) 0] else []),
      ILabelSorted = False\<rparr>"

definition final_loop_det :: "int option Determinizer" where
  "final_loop_det =
     \<lparr>output_states = [[mk_elem 0 0 (Some 0)]], output_arcs = [[]],
      minimal_hash = [([mk_elem 0 0 (Some 0)], 0)], initial_hash = [], queue = [0],
      osymbol_or_final = [OSF_YES], repository = []\<rparr>"

text \<open>
  The state of a determinizer after a run: one output state, with one transition to itself
  that carries the string 7 8.
\<close>

definition string_det :: "int option Determinizer" where
  "string_det =
     \<lparr>output_states = [[mk_elem 0 0 (Some 0)]],
      output_arcs = [[\<lparr>ilabel_t = 1, string_t = 2, nextstate_t = 0, weight_t = Some 3\<rparr>]],
      minimal_hash = [], initial_hash = [], queue = [], osymbol_or_final = [],
      repository = repo_ex\<rparr>"

definition old_fst :: "int option MutableFst" where
  "old_fst = \<lparr>start_m = 0, states_m = [(Some 0, [])]\<rparr>"

definition old_compact_fst :: "(int option \<times> int list) MutableFst" where
  "old_compact_fst = \<lparr>start_m = 0, states_m = [((Some 0, []), [])]\<rparr>"


text \<open>The automaton \<open>branch_fst\<close> with every output label epsilon.\<close>

definition plain_fst :: "int option Fst" where
  "plain_fst =
     \<lparr>Start = 0,
      Final = (\<lambda>s. if s = 1 \<or> s = 2 then Some (- 1) else None),
      Arcs = (\<lambda>s. if s = 0 then [mk_arc 1 0 (Some 1) 1, mk_arc 2 0 (Some 2) 2, mk_arc 1 0 (Some 2) 1]
                   else if s = 1 then [mk_arc 3 0 (Some 1) 1]
                   else if s = 2 then [mk_arc 3 0 (Some 1) 2]
                   else []),
      ILabelSorted = False\<rparr>"


section \<open>Notions the claims are stated with\<close>

text \<open>
  The semiring sum of the weights of a subset, left to right as \<open>NormalizeSubset\<close>
  adds them, and the label sequence a handle stands for.
\<close>

definition Plus_total :: "'w Weight_ops \<Rightarrow> 'w Element list \<Rightarrow> 'w" where
  "Plus_total W elems =
     (case elems of [] \<Rightarrow> Zero_w W | e0 # rest \<Rightarrow> foldl (Plus_w W) (weight e0) (map weight rest))"

definition string_of :: "Repository \<Rightarrow> StringId \<Rightarrow> int list" where
  "string_of repo h = (case ConvertToVector repo h of Inl e \<Rightarrow> [] | Inr v \<Rightarrow> v)"

text \<open>
  What the cache \<open>osymbol_or_final_\<close> holds for the states it has an answer for.
\<close>

definition cache_ok :: "'w Fst \<Rightarrow> ('w Arc \<Rightarrow> int) \<Rightarrow> OsymbolOrFinal list \<Rightarrow> bool" where
  "cache_ok ifst osymbol cache \<longleftrightarrow>
     (\<forall>s < length cache.
        (cache ! s = OSF_YES \<longrightarrow> list_ex (\<lambda>arc. osymbol arc \<noteq> 0) (Arcs ifst (int s))) \<and>
        (cache ! s = OSF_NO \<longrightarrow> \<not> list_ex (\<lambda>arc. osymbol arc \<noteq> 0) (Arcs ifst (int s))))"

text \<open>
  Determinism of the table \<open>output_arcs_\<close> and of an output automaton. In the table a
  record with next state \<open>kNoStateId\<close> is the final weight of its state and has input
  label 0; the others are transitions, with distinct input labels other than 0.
\<close>

definition arcs_det :: "'w TempArc list \<Rightarrow> bool" where
  "arcs_det arcs \<longleftrightarrow>
     distinct (map ilabel_t arcs) \<and>
     (\<forall>a \<in> set arcs. (nextstate_t a = kNoStateId) = (ilabel_t a = 0))"

definition deterministic_fst :: "'w MutableFst \<Rightarrow> bool" where
  "deterministic_fst f \<longleftrightarrow> (\<forall>x \<in> set (states_m f). distinct (map ilabel (snd x)))"

text \<open>
  The invariant of the main loop: the queued states are distinct output states without
  recorded arcs, every state's recorded arcs are deterministic, and the state identifiers
  stored in the two hash tables are not negative. \<open>expanding q\<close> is the same while
  state \<open>q\<close>, taken from the queue, is being processed.
\<close>

definition hash_nonneg :: "'w Determinizer \<Rightarrow> bool" where
  "hash_nonneg st \<longleftrightarrow>
     (\<forall>kv \<in> set (minimal_hash st). 0 \<le> snd kv) \<and>
     (\<forall>kv \<in> set (initial_hash st). 0 \<le> state (snd kv))"

definition expanding :: "int \<Rightarrow> 'w Determinizer \<Rightarrow> bool" where
  "expanding q st \<longleftrightarrow>
     0 \<le> q \<and> nat q < length (output_arcs st) \<and>
     (\<forall>x \<in> set (queue st).
        0 \<le> x \<and> nat x < length (output_arcs st) \<and> output_arcs st ! nat x = [] \<and> x \<noteq> q) \<and>
     distinct (queue st) \<and>
     (\<forall>s < length (output_arcs st). s \<noteq> nat q \<longrightarrow> arcs_det (output_arcs st ! s)) \<and>
     hash_nonneg st"

definition det_inv :: "'w Determinizer \<Rightarrow> bool" where
  "det_inv st \<longleftrightarrow>
     (\<forall>x \<in> set (queue st).
        0 \<le> x \<and> nat x < length (output_arcs st) \<and> output_arcs st ! nat x = []) \<and>
     distinct (queue st) \<and>
     (\<forall>s < length (output_arcs st). arcs_det (output_arcs st ! s)) \<and>
     hash_nonneg st"

text \<open>
  The states \<open>Output_chain\<close> has made after its first arc, described directly: the state
  numbered \<open>n\<close> and its successors, one per remaining label, each with the single arc
  that carries the label to the next of them, and a last one without arcs.
\<close>

fun chain_states :: "'w Weight_ops \<Rightarrow> nat \<Rightarrow> int list \<Rightarrow> ('w \<times> 'w Arc list) list" where
  "chain_states W n [] = [(Zero_w W, [])]"
| "chain_states W n (l # ls) =
     (Zero_w W, [\<lparr>ilabel = 0, olabel = l, weight_a = One_w W, nextstate = int (n + 1)\<rparr>])
       # chain_states W (n + 1) ls"

text \<open>The input label \<open>Output\<close> writes for a recorded arc: epsilon for a final weight.\<close>

definition out_label :: "'w TempArc \<Rightarrow> int" where
  "out_label a = (if nextstate_t a = kNoStateId then 0 else ilabel_t a)"

text \<open>
  While \<open>Output\<close> writes the expanded automaton, the states after the first \<open>n\<close> are
  the ones made for strings; each has at most one arc.
\<close>

definition fresh_ok :: "nat \<Rightarrow> 'w MutableFst \<Rightarrow> bool" where
  "fresh_ok n f \<longleftrightarrow>
     n \<le> length (states_m f) \<and>
     (\<forall>s. n \<le> s \<and> s < length (states_m f) \<longrightarrow> length (snd (states_m f ! s)) \<le> 1)"


section \<open>Facts about the repository\<close>

lemma set_find_None: "set_find r e = None \<longleftrightarrow> e \<notin> set r"
  by (induction r) auto

lemma set_find_Some:
  "set_find r e = Some h \<Longrightarrow> 0 < h \<and> h \<le> length r \<and> r ! (h - 1) = e"
proof (induction r arbitrary: h)
  case Nil
  then show ?case by simp
next
  case (Cons x xs)
  show ?case
  proof (cases "x = e")
    case True
    with Cons.prems show ?thesis by simp
  next
    case False
    with Cons.prems obtain h' where h': "set_find xs e = Some h'" "h = Suc h'"
      by auto
    from Cons.IH [OF h'(1)] h'(2) show ?thesis by (cases h') auto
  qed
qed

lemma set_find_append:
  "set_find r e = Some h \<Longrightarrow> set_find (r @ r') e = Some h"
  by (induction r arbitrary: h) auto

lemma Successor_prefix: "Successor r p x = (h, r') \<Longrightarrow> prefix r r'"
  by (auto simp: Successor_def split: option.splits)

lemma Successor_found:
  "Successor r p x = (h, r') \<Longrightarrow> set_find r' (p, x) = Some h"
proof (cases "set_find r (p, x)")
  case None
  assume s: "Successor r p x = (h, r')"
  from None have notin: "(p, x) \<notin> set r" by (simp add: set_find_None)
  have "set_find (r @ [(p, x)]) (p, x) = Some (Suc (length r))"
    using notin by (induction r) auto
  with s None show ?thesis by (simp add: Successor_def)
next
  case (Some a)
  assume "Successor r p x = (h, r')"
  with Some show ?thesis by (simp add: Successor_def)
qed

lemma Successor_stable:
  assumes "Successor r p x = (h, r')" and "prefix r' r2"
  shows "Successor r2 p x = (h, r2)"
proof -
  from assms(2) obtain ys where r2: "r2 = r' @ ys" by (auto simp: prefix_def)
  from Successor_found [OF assms(1)] have "set_find r2 (p, x) = Some h"
    unfolding r2 by (rule set_find_append)
  then show ?thesis by (simp add: Successor_def)
qed

lemma Successor_loop_prefix:
  "Successor_loop r e v = (h, r') \<Longrightarrow> prefix r r'"
proof (induction v arbitrary: r e)
  case Nil
  then show ?case by simp
next
  case (Cons x xs)
  obtain e1 r1 where s: "Successor r e x = (e1, r1)" by (cases "Successor r e x")
  with Cons.prems have "Successor_loop r1 e1 xs = (h, r')" by simp
  from Cons.IH [OF this] Successor_prefix [OF s] show ?case
    by (rule prefix_order.trans [rotated])
qed

lemma Successor_loop_stable:
  "Successor_loop r e v = (h, r') \<Longrightarrow> prefix r' r2 \<Longrightarrow> Successor_loop r2 e v = (h, r2)"
proof (induction v arbitrary: r e)
  case Nil
  then show ?case by simp
next
  case (Cons x xs)
  obtain e1 r1 where s: "Successor r e x = (e1, r1)" by (cases "Successor r e x")
  with Cons.prems have l: "Successor_loop r1 e1 xs = (h, r')" by simp
  from Successor_loop_prefix [OF l] Cons.prems(2) have "prefix r1 r2"
    by (rule prefix_order.trans)
  from Successor_stable [OF s this] Cons.IH [OF l Cons.prems(2)] show ?case by simp
qed

lemma CTV_zero [simp]: "ConvertToVector r 0 = Inr []"
  by (simp add: ConvertToVector.simps)

lemma CTV_bound: "ConvertToVector r h = Inr v \<Longrightarrow> h \<le> length r"
  by (subst (asm) ConvertToVector.simps) (auto split: if_splits)

lemma CTV_nonempty: "ConvertToVector r h = Inr v \<Longrightarrow> (v = [] \<longleftrightarrow> h = 0)"
  by (subst (asm) ConvertToVector.simps) (auto split: if_splits sum.splits)

lemma CTV_Suc:
  "ConvertToVector r (Suc k) = Inr v \<Longrightarrow>
     \<exists>u. ConvertToVector r (fst (r ! k)) = Inr u \<and> v = u @ [snd (r ! k)] \<and> fst (r ! k) \<le> k \<and> k < length r"
  by (subst (asm) ConvertToVector.simps) (auto split: if_splits sum.splits)

lemma CTV_extend:
  "ConvertToVector r h = Inr v \<Longrightarrow> ConvertToVector (r @ ys) h = Inr v"
proof (induction h arbitrary: v rule: less_induct)
  case (less h)
  show ?case
  proof (cases h)
    case 0
    with less.prems show ?thesis by simp
  next
    case (Suc k)
    from CTV_Suc [OF less.prems [unfolded Suc]] obtain u where
      u: "ConvertToVector r (fst (r ! k)) = Inr u" "v = u @ [snd (r ! k)]"
         "fst (r ! k) \<le> k" "k < length r" by blast
    from u(3) Suc have "fst (r ! k) < h" by simp
    from less.IH [OF this u(1)] have "ConvertToVector (r @ ys) (fst (r ! k)) = Inr u" .
    with u Suc show ?thesis
      by (subst ConvertToVector.simps) (simp add: nth_append)
  qed
qed

lemma CTV_valid:
  "wf_repo r \<Longrightarrow> h \<le> length r \<Longrightarrow> \<exists>v. ConvertToVector r h = Inr v"
proof (induction h rule: less_induct)
  case (less h)
  show ?case
  proof (cases h)
    case 0
    then show ?thesis by simp
  next
    case (Suc k)
    with less.prems have k: "k < length r" "fst (r ! k) \<le> k"
      by (auto simp: wf_repo_def)
    with Suc less.prems have "\<exists>u. ConvertToVector r (fst (r ! k)) = Inr u"
      by (intro less.IH) auto
    then obtain u where "ConvertToVector r (fst (r ! k)) = Inr u" ..
    with k Suc show ?thesis
      by (subst ConvertToVector.simps) simp
  qed
qed

lemma CTV_inj:
  "wf_repo r \<Longrightarrow> ConvertToVector r h1 = Inr v \<Longrightarrow> ConvertToVector r h2 = Inr v \<Longrightarrow> h1 = h2"
proof (induction h1 arbitrary: h2 v rule: less_induct)
  case (less h1)
  show ?case
  proof (cases h1)
    case 0
    with less.prems(2) have "v = []" by simp
    with CTV_nonempty [OF less.prems(3)] 0 show ?thesis by simp
  next
    case (Suc k1)
    from CTV_Suc [OF less.prems(2) [unfolded Suc]] obtain u1 where
      u1: "ConvertToVector r (fst (r ! k1)) = Inr u1" "v = u1 @ [snd (r ! k1)]"
         "fst (r ! k1) \<le> k1" "k1 < length r" by blast
    then have "v \<noteq> []" by simp
    with CTV_nonempty [OF less.prems(3)] obtain k2 where k2: "h2 = Suc k2"
      by (cases h2) auto
    from CTV_Suc [OF less.prems(3) [unfolded k2]] obtain u2 where
      u2: "ConvertToVector r (fst (r ! k2)) = Inr u2" "v = u2 @ [snd (r ! k2)]"
         "fst (r ! k2) \<le> k2" "k2 < length r" by blast
    from u1(2) u2(2) have eq: "u1 = u2" "snd (r ! k1) = snd (r ! k2)" by auto
    from u1(3) Suc have "fst (r ! k1) < h1" by simp
    from less.IH [OF this less.prems(1) u1(1) u2(1) [folded eq(1)]]
    have "fst (r ! k1) = fst (r ! k2)" .
    with eq(2) have "r ! k1 = r ! k2" by (simp add: prod_eq_iff)
    with less.prems(1) u1(4) u2(4) have "k1 = k2"
      by (auto simp: wf_repo_def nth_eq_iff_index_eq)
    with Suc k2 show ?thesis by simp
  qed
qed

lemma Successor_wf:
  assumes "wf_repo r" "p \<le> length r" "Successor r p x = (h, r')"
  shows "wf_repo r'"
proof (cases "set_find r (p, x)")
  case None
  with assms(3) have r': "r' = r @ [(p, x)]" by (simp add: Successor_def)
  from None have "(p, x) \<notin> set r" by (simp add: set_find_None)
  with assms(1,2) show ?thesis
    unfolding r' wf_repo_def by (auto simp: nth_append less_Suc_eq)
next
  case (Some a)
  with assms show ?thesis by (simp add: Successor_def)
qed

lemma Successor_CTV:
  assumes "wf_repo r" "ConvertToVector r p = Inr v" "Successor r p x = (h, r')"
  shows "ConvertToVector r' h = Inr (v @ [x])"
proof -
  from Successor_prefix [OF assms(3)] obtain ys where r': "r' = r @ ys"
    by (auto simp: prefix_def)
  from set_find_Some [OF Successor_found [OF assms(3)]]
  have h: "0 < h" "h \<le> length r'" "r' ! (h - 1) = (p, x)" by auto
  have p: "ConvertToVector r' p = Inr v" unfolding r' by (rule CTV_extend [OF assms(2)])
  have "p < h"
  proof (cases "set_find r (p, x)")
    case None
    with assms(3) have "h = Suc (length r)" by (simp add: Successor_def)
    with CTV_bound [OF assms(2)] show ?thesis by simp
  next
    case (Some a)
    with assms(3) have "r' = r" by (simp add: Successor_def)
    from h \<open>r' = r\<close> have "h - 1 < length r" by simp
    with assms(1) have "fst (r ! (h - 1)) \<le> h - 1"
      unfolding wf_repo_def by blast
    with h \<open>r' = r\<close> show ?thesis by simp
  qed
  with h p show ?thesis
    by (subst ConvertToVector.simps) simp
qed


lemma Successor_loop_CTV:
  "wf_repo r \<Longrightarrow> ConvertToVector r e = Inr u \<Longrightarrow> Successor_loop r e v = (h, r') \<Longrightarrow>
     wf_repo r' \<and> ConvertToVector r' h = Inr (u @ v)"
proof (induction v arbitrary: r e u)
  case Nil
  then show ?case by simp
next
  case (Cons x xs)
  obtain e1 r1 where s: "Successor r e x = (e1, r1)" by (cases "Successor r e x")
  with Cons.prems have l: "Successor_loop r1 e1 xs = (h, r')" by simp
  from Successor_wf [OF Cons.prems(1) CTV_bound [OF Cons.prems(2)] s] have w: "wf_repo r1" .
  from Successor_CTV [OF Cons.prems(1,2) s] have "ConvertToVector r1 e1 = Inr (u @ [x])" .
  from Cons.IH [OF w this l] show ?case by simp
qed

lemma wf_repo_Nil: "wf_repo []"
  by (simp add: wf_repo_def)


section \<open>Hash-consing of interned strings\<close>

text \<open>
  Claim C9. In a repository that satisfies its invariant, two label vectors interned one
  after the other (with any further interning in between) get the same handle exactly
  when they are equal, and interning the first again returns its handle and allocates
  nothing. \<open>Successor\<close> called again with the same parent and label, then or at any
  later state of the repository, returns the same handle. The empty vector's handle is
  always \<open>EmptyString\<close>, the null pointer.
\<close>

theorem hash_consing_unique:
  assumes "wf_repo r"
    and "ConvertFromVector r v = (h1, r1)"
    and "prefix r1 r2" and "wf_repo r2"
    and "ConvertFromVector r2 w = (h2, r3)"
    and "Successor rs p x = (h, rs1)" and "prefix rs1 rs2"
  shows "(h1 = h2 \<longleftrightarrow> v = w)
       \<and> ConvertFromVector r3 v = (h1, r3)
       \<and> Successor rs2 p x = (h, rs2)
       \<and> ConvertFromVector r [] = (EmptyString, r)"
proof -
  have v1: "ConvertToVector r1 h1 = Inr v"
    using Successor_loop_CTV [OF assms(1) CTV_zero] assms(2)
    by (simp add: ConvertFromVector_def)
  have w3: "wf_repo r3" "ConvertToVector r3 h2 = Inr w"
    using Successor_loop_CTV [OF assms(4) CTV_zero] assms(5)
    by (simp_all add: ConvertFromVector_def)
  have p23: "prefix r2 r3"
    using assms(5) by (auto simp: ConvertFromVector_def dest: Successor_loop_prefix)
  with assms(3) have p13: "prefix r1 r3" by (rule prefix_order.trans)
  then obtain ys where "r3 = r1 @ ys" by (auto simp: prefix_def)
  with CTV_extend [OF v1] have v3: "ConvertToVector r3 h1 = Inr v" by simp
  have again: "ConvertFromVector r3 v = (h1, r3)"
    using assms(2) p13 unfolding ConvertFromVector_def by (rule Successor_loop_stable)
  have "h1 = h2 \<longleftrightarrow> v = w"
  proof
    assume "h1 = h2"
    with v3 w3(2) show "v = w" by simp
  next
    assume "v = w"
    with v3 w3 show "h1 = h2" by (auto dest: CTV_inj)
  qed
  moreover have "Successor rs2 p x = (h, rs2)"
    using assms(6,7) by (rule Successor_stable)
  moreover have "ConvertFromVector r [] = (EmptyString, r)"
    by (simp add: ConvertFromVector_def EmptyString_def)
  ultimately show ?thesis using again by blast
qed

theorem hash_consing_unique_witness:
  "wf_repo []
   \<and> ConvertFromVector [] [7, 8] = (2, [(0, 7), (1, 8)])
   \<and> prefix [(0, 7), (1, 8)] [(0::nat, 7::int), (1, 8)]
   \<and> wf_repo [(0, 7), (1, 8)]
   \<and> ConvertFromVector [(0, 7), (1, 8)] [7, 9] = (3, [(0, 7), (1, 8), (1, 9)])
   \<and> Successor [] 0 7 = (1, [(0, 7)])
   \<and> prefix [(0, 7)] [(0::nat, 7::int), (1, 8)]
   \<and> ((2::nat) = 3 \<longleftrightarrow> [7, 8] = [7, 9::int])
   \<and> ConvertFromVector [(0, 7), (1, 8), (1, 9)] [7, 8] = (2, [(0, 7), (1, 8), (1, 9)])
   \<and> Successor [(0, 7), (1, 8)] 0 7 = (1, [(0, 7), (1, 8)])
   \<and> ConvertFromVector [] [] = (EmptyString, [])"
proof -
  have a1: "wf_repo []" by (rule wf_repo_Nil)
  have a2: "ConvertFromVector [] [7, 8] = (2, [(0, 7), (1, 8)])"
    by (simp add: ConvertFromVector_def Successor_def)
  have a3: "prefix [(0, 7), (1, 8)] [(0::nat, 7::int), (1, 8)]" by simp
  have a4: "wf_repo [(0, 7), (1, 8)]"
    by (auto simp: wf_repo_def less_Suc_eq)
  have a5: "ConvertFromVector [(0, 7), (1, 8)] [7, 9] = (3, [(0, 7), (1, 8), (1, 9)])"
    by (simp add: ConvertFromVector_def Successor_def)
  have a6: "Successor [] 0 7 = (1, [(0, 7)])" by (simp add: Successor_def)
  have a7: "prefix [(0, 7)] [(0::nat, 7::int), (1, 8)]" by simp
  from hash_consing_unique [OF a1 a2 a3 a4 a5 a6 a7] a1 a2 a3 a4 a5 a6 a7
  show ?thesis by simp
qed


section \<open>NormalizeSubset\<close>

lemma common_len_lcp: "take (common_len a b) b = longest_common_prefix a b"
  by (induction a b rule: common_len.induct) auto

lemma common_len_le1: "common_len a b \<le> length a"
  by (induction a b rule: common_len.induct) auto

lemma common_len_take: "common_len a (take (length a) b) = common_len a b"
  by (induction a b rule: common_len.induct) auto

lemma ReduceToCommonPrefix_eq:
  assumes "ConvertToVector repo a = Inr av"
  shows "ReduceToCommonPrefix repo a b = Inr (longest_common_prefix av b)"
proof -
  define b1 where "b1 = (if length b > length av then take (length av) b else b)"
  have k: "common_len av b1 = common_len av b"
    by (simp add: b1_def common_len_take)
  have "take (common_len av b) b1 = take (common_len av b) b"
    using common_len_le1 [of av b] by (simp add: b1_def min_def)
  then have t: "take (common_len av b) b1 = longest_common_prefix av b"
    by (simp add: common_len_lcp)
  have "(if common_len av b1 \<noteq> length b1 then take (common_len av b1) b1 else b1)
          = take (common_len av b1) b1" by simp
  with k t have "(if common_len av b1 \<noteq> length b1 then take (common_len av b1) b1 else b1)
          = longest_common_prefix av b" by simp
  with assms show ?thesis
    unfolding ReduceToCommonPrefix_def Let_def b1_def by simp
qed

lemma string_of_eq: "ConvertToVector repo h = Inr v \<Longrightarrow> string_of repo h = v"
  by (simp add: string_of_def)

lemma CTV_string_of:
  "wf_repo repo \<Longrightarrow> h \<le> length repo \<Longrightarrow> ConvertToVector repo h = Inr (string_of repo h)"
  using CTV_valid [of repo h] by (auto simp: string_of_def)

lemma NormalizeSubset_total_eq:
  assumes "wf_repo repo" "\<forall>e \<in> set es. string e \<le> length repo"
  shows "NormalizeSubset_total W repo es (w, cp) =
           Inr (foldl (Plus_w W) w (map weight es),
                foldl (\<lambda>p e. longest_common_prefix (string_of repo (string e)) p) cp es)"
  using assms(2)
proof (induction es arbitrary: w cp)
  case Nil
  then show ?case by simp
next
  case (Cons e es)
  from Cons.prems have "ConvertToVector repo (string e) = Inr (string_of repo (string e))"
    by (intro CTV_string_of assms(1)) simp
  from ReduceToCommonPrefix_eq [OF this] Cons show ?case by simp
qed

lemma fold_lcp_prefix:
  "prefix (foldl (\<lambda>p e. longest_common_prefix (f e) p) cp es) cp"
proof (induction es arbitrary: cp)
  case Nil
  then show ?case by simp
next
  case (Cons e es)
  have "prefix (longest_common_prefix (f e) cp) cp" by (rule longest_common_prefix_prefix2)
  with Cons.IH [of "longest_common_prefix (f e) cp"] show ?case
    by (auto intro: prefix_order.trans)
qed

lemma fold_lcp_prefix_each:
  "e \<in> set es \<Longrightarrow> prefix (foldl (\<lambda>p e. longest_common_prefix (f e) p) cp es) (f e)"
proof (induction es arbitrary: cp)
  case Nil
  then show ?case by simp
next
  case (Cons a es)
  show ?case
  proof (cases "e = a")
    case True
    have "prefix (foldl (\<lambda>p e. longest_common_prefix (f e) p) (longest_common_prefix (f a) cp) es)
            (longest_common_prefix (f a) cp)" by (rule fold_lcp_prefix)
    also have "prefix \<dots> (f a)" by (rule longest_common_prefix_prefix1)
    finally show ?thesis using True by simp
  next
    case False
    with Cons.prems have "e \<in> set es" by simp
    from Cons.IH [OF this] show ?thesis by simp
  qed
qed

lemma fold_lcp_max:
  "prefix q cp \<Longrightarrow> \<forall>e \<in> set es. prefix q (f e) \<Longrightarrow>
     prefix q (foldl (\<lambda>p e. longest_common_prefix (f e) p) cp es)"
proof (induction es arbitrary: cp)
  case Nil
  then show ?case by simp
next
  case (Cons a es)
  from Cons.prems have "prefix q (longest_common_prefix (f a) cp)"
    by (intro longest_common_prefix_max_prefix) auto
  from Cons.IH [OF this] Cons.prems(2) show ?case by simp
qed

lemma RemovePrefix_ok:
  assumes "wf_repo repo" "ConvertToVector repo a = Inr av" "n \<le> length av"
  shows "\<exists>h repo1. RemovePrefix repo a n = Inr (h, repo1) \<and> wf_repo repo1 \<and> prefix repo repo1
           \<and> ConvertToVector repo1 h = Inr (drop n av)"
proof (cases "n = 0")
  case True
  with assms show ?thesis by (simp add: RemovePrefix_def)
next
  case False
  obtain h repo1 where l: "Successor_loop repo 0 (drop n av) = (h, repo1)"
    by (cases "Successor_loop repo 0 (drop n av)")
  from Successor_loop_CTV [OF assms(1) CTV_zero l] Successor_loop_prefix [OF l] False assms l
  show ?thesis by (simp add: RemovePrefix_def)
qed

lemma CTV_prefix:
  "prefix r r' \<Longrightarrow> ConvertToVector r h = Inr v \<Longrightarrow> ConvertToVector r' h = Inr v"
  by (auto simp: prefix_def intro: CTV_extend)

lemma NormalizeSubset_divide_ok:
  assumes "\<forall>e \<in> set es. string e \<le> length repo0 \<and> n \<le> length (string_of repo0 (string e))"
    and "wf_repo repo0"
  shows "wf_repo repo \<Longrightarrow> prefix repo0 repo \<Longrightarrow>
     \<exists>out repo1. NormalizeSubset_divide W w n es repo = Inr (out, repo1) \<and> wf_repo repo1
       \<and> prefix repo repo1
       \<and> list_all2 (\<lambda>e e'. state e' = state e \<and> weight e' = Divide_w W (weight e) w
            \<and> ConvertToVector repo1 (string e') = Inr (drop n (string_of repo0 (string e)))) es out"
  using assms(1)
proof (induction es arbitrary: repo)
  case Nil
  then show ?case by simp
next
  case (Cons e es)
  from Cons.prems(3) have e: "string e \<le> length repo0" "n \<le> length (string_of repo0 (string e))"
    by auto
  from CTV_string_of [OF assms(2) e(1)] Cons.prems(2)
  have "ConvertToVector repo (string e) = Inr (string_of repo0 (string e))"
    by (rule CTV_prefix [rotated])
  from RemovePrefix_ok [OF Cons.prems(1) this e(2)] obtain h repo1 where
    r: "RemovePrefix repo (string e) n = Inr (h, repo1)" "wf_repo repo1" "prefix repo repo1"
       "ConvertToVector repo1 h = Inr (drop n (string_of repo0 (string e)))" by blast
  from Cons.prems(2) r(3) have p01: "prefix repo0 repo1" by (rule prefix_order.trans)
  from Cons.prems(3) have "\<forall>e \<in> set es. string e \<le> length repo0 \<and> n \<le> length (string_of repo0 (string e))"
    by simp
  from Cons.IH [OF r(2) p01 this] obtain out repo2 where
    o: "NormalizeSubset_divide W w n es repo1 = Inr (out, repo2)" "wf_repo repo2"
       "prefix repo1 repo2"
       "list_all2 (\<lambda>e e'. state e' = state e \<and> weight e' = Divide_w W (weight e) w
            \<and> ConvertToVector repo2 (string e') = Inr (drop n (string_of repo0 (string e)))) es out"
    by blast
  from r(4) o(3) have "ConvertToVector repo2 h = Inr (drop n (string_of repo0 (string e)))"
    by (rule CTV_prefix [rotated])
  moreover from r(3) o(3) have "prefix repo repo2" by (rule prefix_order.trans)
  ultimately show ?case using r(1) o(1,2,4) by simp
qed

lemma NormalizeSubset_unfold:
  assumes wf: "wf_repo repo" and valid: "\<forall>e \<in> set elems. string e \<le> length repo"
    and ne: "elems \<noteq> []"
  defines "cp \<equiv> foldl (\<lambda>p e. longest_common_prefix (string_of repo (string e)) p)
                     (string_of repo (string (hd elems))) (tl elems)"
  shows "NormalizeSubset W repo elems =
           (if Plus_total W elems = Zero_w W then Inl AssertFailed
            else case NormalizeSubset_divide W (Plus_total W elems) (length cp) elems repo of
                   Inl err \<Rightarrow> Inl err
                 | Inr (elems1, repo1) \<Rightarrow>
                     (case ConvertFromVector repo1 cp of
                        (common_str, repo2) \<Rightarrow>
                          Inr (elems1, common_str, Plus_total W elems, repo2)))"
proof -
  from ne obtain e0 rest where el: "elems = e0 # rest" by (cases elems) auto
  from valid el have v0: "ConvertToVector repo (string e0) = Inr (string_of repo (string e0))"
    by (intro CTV_string_of wf) simp
  from valid el have "\<forall>e \<in> set rest. string e \<le> length repo" by simp
  note tot = NormalizeSubset_total_eq [OF wf this, of W "weight e0" "string_of repo (string e0)"]
  show ?thesis
    unfolding NormalizeSubset_def el cp_def
    by (simp add: v0 tot Plus_total_def del: NormalizeSubset_divide.simps
          split: sum.splits prod.splits)
qed

lemma common_prefix_facts:
  fixes f :: "'e \<Rightarrow> 'a list"
  assumes ne: "elems \<noteq> []"
  defines "cp \<equiv> foldl (\<lambda>p e. longest_common_prefix (f e) p) (f (hd elems)) (tl elems)"
  shows "\<forall>e \<in> set elems. prefix cp (f e)"
    and "(\<forall>e \<in> set elems. prefix q (f e)) \<Longrightarrow> prefix q cp"
proof -
  from ne obtain e0 rest where el: "elems = e0 # rest" by (cases elems) auto
  show "\<forall>e \<in> set elems. prefix cp (f e)"
    unfolding el cp_def using fold_lcp_prefix [of f "f e0" rest] fold_lcp_prefix_each [of _ rest f "f e0"]
    by auto
  show "(\<forall>e \<in> set elems. prefix q (f e)) \<Longrightarrow> prefix q cp"
    unfolding el cp_def using fold_lcp_max [of q "f e0" rest f] by simp
qed

lemma NormalizeSubset_result:
  assumes wf: "wf_repo repo" and valid: "\<forall>e \<in> set elems. string e \<le> length repo"
    and ne: "elems \<noteq> []" and nz: "Plus_total W elems \<noteq> Zero_w W"
  shows "\<exists>elems1 common_str repo1 cp.
           NormalizeSubset W repo elems = Inr (elems1, common_str, Plus_total W elems, repo1)
         \<and> ConvertToVector repo1 common_str = Inr cp
         \<and> (\<forall>e \<in> set elems. prefix cp (string_of repo (string e)))
         \<and> (\<forall>q. (\<forall>e \<in> set elems. prefix q (string_of repo (string e))) \<longrightarrow> prefix q cp)
         \<and> list_all2 (\<lambda>e e'. state e' = state e
               \<and> weight e' = Divide_w W (weight e) (Plus_total W elems)
               \<and> ConvertToVector repo1 (string e') = Inr (drop (length cp) (string_of repo (string e))))
             elems elems1"
proof -
  define cp where "cp = foldl (\<lambda>p e. longest_common_prefix (string_of repo (string e)) p)
                     (string_of repo (string (hd elems))) (tl elems)"
  note cpf = common_prefix_facts [OF ne, where f = "\<lambda>e. string_of repo (string e)", folded cp_def]
  have len: "\<forall>e \<in> set elems. string e \<le> length repo \<and> length cp \<le> length (string_of repo (string e))"
    using valid cpf(1) by (auto dest: prefix_length_le)
  from NormalizeSubset_divide_ok [OF len wf wf prefix_order.refl, of W "Plus_total W elems"]
  obtain out repo1 where
    d: "NormalizeSubset_divide W (Plus_total W elems) (length cp) elems repo = Inr (out, repo1)"
       "wf_repo repo1" "prefix repo repo1"
       "list_all2 (\<lambda>e e'. state e' = state e \<and> weight e' = Divide_w W (weight e) (Plus_total W elems)
            \<and> ConvertToVector repo1 (string e') = Inr (drop (length cp) (string_of repo (string e)))) elems out"
    by blast
  obtain common_str repo2 where c: "ConvertFromVector repo1 cp = (common_str, repo2)"
    by (cases "ConvertFromVector repo1 cp")
  from Successor_loop_CTV [OF d(2) CTV_zero] c
  have c2: "wf_repo repo2" "ConvertToVector repo2 common_str = Inr cp"
    by (simp_all add: ConvertFromVector_def)
  from c have p12: "prefix repo1 repo2"
    by (auto simp: ConvertFromVector_def dest: Successor_loop_prefix)
  have l2: "list_all2 (\<lambda>e e'. state e' = state e \<and> weight e' = Divide_w W (weight e) (Plus_total W elems)
            \<and> ConvertToVector repo2 (string e') = Inr (drop (length cp) (string_of repo (string e)))) elems out"
    using d(4) by (rule list_all2_mono) (auto intro: CTV_prefix [OF p12])
  have "NormalizeSubset W repo elems = Inr (out, common_str, Plus_total W elems, repo2)"
    using NormalizeSubset_unfold [OF wf valid ne, of W] nz d(1) c
    by (simp add: cp_def)
  with c2(2) cpf l2 show ?thesis by blast
qed

text \<open>
  Claim C4. For a non-empty subset whose strings are handles of the repository and whose
  total weight is not \<open>Zero\<close>, \<open>NormalizeSubset\<close> returns the \<open>Plus\<close>-sum of the
  weights and a handle of the longest common prefix of the strings (a prefix of every
  string that every common prefix is a prefix of); every Element keeps its state, its
  weight is divided by the sum, and its string is the old one without the prefix.
\<close>

theorem NormalizeSubset_postcondition:
  assumes wf: "wf_repo repo" and valid: "\<forall>e \<in> set elems. string e \<le> length repo"
    and ne: "elems \<noteq> []" and nz: "Plus_total W elems \<noteq> Zero_w W"
  shows "\<exists>elems1 common_str repo1 cp.
           NormalizeSubset W repo elems = Inr (elems1, common_str, Plus_total W elems, repo1)
         \<and> ConvertToVector repo1 common_str = Inr cp
         \<and> (\<forall>e \<in> set elems. prefix cp (string_of repo (string e)))
         \<and> (\<forall>q. (\<forall>e \<in> set elems. prefix q (string_of repo (string e))) \<longrightarrow> prefix q cp)
         \<and> list_all2 (\<lambda>e e'. state e' = state e
               \<and> weight e' = Divide_w W (weight e) (Plus_total W elems)
               \<and> ConvertToVector repo1 (string e') = Inr (drop (length cp) (string_of repo (string e))))
             elems elems1"
  using wf valid ne nz by (rule NormalizeSubset_result)

theorem NormalizeSubset_postcondition_witness:
  "wf_repo repo_ex
   \<and> list_all (\<lambda>e. string e \<le> length repo_ex) subset_ex
   \<and> subset_ex \<noteq> []
   \<and> Plus_total tropical subset_ex \<noteq> Zero_w tropical
   \<and> NormalizeSubset tropical repo_ex subset_ex
       = Inr ([mk_elem 0 4 (Some 0), mk_elem 1 5 (Some 3)], 1, Some 1, repo_ex @ [(0, 8), (0, 9)])
   \<and> (\<exists>elems1 common_str repo1 cp.
         NormalizeSubset tropical repo_ex subset_ex
           = Inr (elems1, common_str, Plus_total tropical subset_ex, repo1)
       \<and> ConvertToVector repo1 common_str = Inr cp
       \<and> (\<forall>e \<in> set subset_ex. prefix cp (string_of repo_ex (string e)))
       \<and> (\<forall>q. (\<forall>e \<in> set subset_ex. prefix q (string_of repo_ex (string e))) \<longrightarrow> prefix q cp)
       \<and> list_all2 (\<lambda>e e'. state e' = state e
             \<and> weight e' = Divide_w tropical (weight e) (Plus_total tropical subset_ex)
             \<and> ConvertToVector repo1 (string e')
                 = Inr (drop (length cp) (string_of repo_ex (string e))))
           subset_ex elems1)"
proof -
  have a1: "wf_repo repo_ex"
    by (auto simp: wf_repo_def repo_ex_def less_Suc_eq)
  have a2: "\<forall>e \<in> set subset_ex. string e \<le> length repo_ex"
    by (simp add: mk_elem_def subset_ex_def repo_ex_def)
  have a3: "subset_ex \<noteq> []" by (simp add: subset_ex_def)
  have a4: "Plus_total tropical subset_ex \<noteq> Zero_w tropical"
    by (simp add: Plus_total_def tropical_def mk_elem_def subset_ex_def)
  have a5: "NormalizeSubset tropical repo_ex subset_ex
            = Inr ([mk_elem 0 4 (Some 0), mk_elem 1 5 (Some 3)], 1, Some 1,
                   repo_ex @ [(0, 8), (0, 9)])"
    by (simp add: NormalizeSubset_def ConvertToVector.simps ReduceToCommonPrefix_def
          RemovePrefix_def ConvertFromVector_def Successor_def tropical_def mk_elem_def
          subset_ex_def repo_ex_def)
  from a2 have a2': "list_all (\<lambda>e. string e \<le> length repo_ex) subset_ex"
    by (simp add: list_all_iff)
  note ex = NormalizeSubset_postcondition [OF a1 a2 a3 a4]
  show ?thesis by (intro conjI a1 a2' a3 a4 a5 ex)
qed

text \<open>
  Claim C7. Called on an empty subset, or on one whose total weight is \<open>Zero\<close>,
  \<open>NormalizeSubset\<close> stops at an assertion; on every other subset (of handles of the
  repository) it returns.
\<close>

theorem NormalizeSubset_precondition:
  assumes wf: "wf_repo repo" and valid: "\<forall>e \<in> set elems. string e \<le> length repo"
  shows "(elems = [] \<or> Plus_total W elems = Zero_w W \<longrightarrow>
            NormalizeSubset W repo elems = Inl AssertFailed)
       \<and> (elems \<noteq> [] \<and> Plus_total W elems \<noteq> Zero_w W \<longrightarrow>
            (\<exists>res. NormalizeSubset W repo elems = Inr res))"
proof (cases "elems = []")
  case True
  then show ?thesis by (simp add: NormalizeSubset_def)
next
  case False
  show ?thesis
  proof (cases "Plus_total W elems = Zero_w W")
    case True
    with NormalizeSubset_unfold [OF wf valid False, of W] show ?thesis by simp
  next
    case nz: False
    from NormalizeSubset_result [OF wf valid False nz] False nz show ?thesis by auto
  qed
qed

theorem NormalizeSubset_precondition_witness:
  "wf_repo []
   \<and> Plus_total tropical [mk_elem 3 0 None] = Zero_w tropical
   \<and> NormalizeSubset tropical [] [] = Inl AssertFailed
   \<and> NormalizeSubset tropical [] [mk_elem 3 0 None] = Inl AssertFailed
   \<and> Plus_total tropical [mk_elem 3 0 (Some 2)] \<noteq> Zero_w tropical
   \<and> (\<exists>res. NormalizeSubset tropical [] [mk_elem 3 0 (Some 2)] = Inr res)"
proof -
  have a1: "wf_repo []" by (rule wf_repo_Nil)
  have v0: "\<forall>e \<in> set ([] :: int option Element list). string e \<le> length ([] :: Repository)"
    by simp
  have v1: "\<forall>e \<in> set [mk_elem 3 0 (None :: int option)]. string e \<le> length ([] :: Repository)"
    by (simp add: mk_elem_def)
  have v2: "\<forall>e \<in> set [mk_elem 3 0 (Some (2::int))]. string e \<le> length ([] :: Repository)"
    by (simp add: mk_elem_def)
  have z: "Plus_total tropical [mk_elem 3 0 None] = Zero_w tropical"
    by (simp add: Plus_total_def tropical_def mk_elem_def)
  have nz: "Plus_total tropical [mk_elem 3 0 (Some 2)] \<noteq> Zero_w tropical"
    by (simp add: Plus_total_def tropical_def mk_elem_def)
  from NormalizeSubset_precondition [OF a1 v0, of tropical]
  have "NormalizeSubset tropical [] [] = Inl AssertFailed" by simp
  moreover from NormalizeSubset_precondition [OF a1 v1, of tropical] z
  have "NormalizeSubset tropical [] [mk_elem 3 0 None] = Inl AssertFailed" by simp
  moreover from NormalizeSubset_precondition [OF a1 v2, of tropical] nz
  have "\<exists>res. NormalizeSubset tropical [] [mk_elem 3 0 (Some 2)] = Inr res" by simp
  ultimately show ?thesis using a1 z nz by blast
qed


section \<open>ConvertToMinimal\<close>

lemma cache_ok_pad:
  "cache_ok ifst osymbol cache \<Longrightarrow> cache_ok ifst osymbol (cache @ replicate n OSF_UNKNOWN)"
  by (auto simp: cache_ok_def nth_append)

lemma cache_ok_update:
  assumes "cache_ok ifst osymbol cache" "k < length cache"
    and "v = OSF_YES \<longrightarrow> list_ex (\<lambda>arc. osymbol arc \<noteq> 0) (Arcs ifst (int k))"
    and "v = OSF_NO \<longrightarrow> \<not> list_ex (\<lambda>arc. osymbol arc \<noteq> 0) (Arcs ifst (int k))"
  shows "cache_ok ifst osymbol (cache[k := v])"
  using assms by (auto simp: cache_ok_def nth_list_update)

lemma IsOsymbolOrFinal_result:
  assumes "0 \<le> s" "cache_ok ifst osymbol cache"
  shows "\<exists>c. IsOsymbolOrFinal W ifst osymbol cache s
              = Inr (list_ex (\<lambda>arc. osymbol arc \<noteq> 0) (Arcs ifst s), c)
            \<and> cache_ok ifst osymbol c"
proof -
  define c1 where "c1 = (if length cache \<le> nat s
                  then cache @ replicate (nat s + 1 - length cache) OSF_UNKNOWN else cache)"
  have ok1: "cache_ok ifst osymbol c1"
    using assms(2) by (simp add: c1_def cache_ok_pad)
  have len: "nat s < length c1" by (auto simp: c1_def)
  have s: "int (nat s) = s" using assms(1) by simp
  define ex where "ex = list_ex (\<lambda>arc. osymbol arc \<noteq> 0) (Arcs ifst s)"
  consider (no) "c1 ! nat s = OSF_NO" | (yes) "c1 ! nat s = OSF_YES" | (unk) "c1 ! nat s = OSF_UNKNOWN"
    by (cases "c1 ! nat s") auto
  then show ?thesis
  proof cases
    case no
    with ok1 len s have "\<not> ex" by (auto simp: cache_ok_def ex_def)
    with no assms(1) ok1 show ?thesis
      by (simp add: IsOsymbolOrFinal_def Let_def c1_def [symmetric] ex_def)
  next
    case yes
    with ok1 len s have "ex" by (auto simp: cache_ok_def ex_def)
    with yes assms(1) ok1 show ?thesis
      by (simp add: IsOsymbolOrFinal_def Let_def c1_def [symmetric] ex_def)
  next
    case unk
    define c2 where "c2 = (if Final ifst s \<noteq> Zero_w W then c1[nat s := OSF_YES] else c1)"
    have len2: "nat s < length c2" using len by (simp add: c2_def)
    have upd: "cache_ok ifst osymbol (c2[nat s := (if ex then OSF_YES else OSF_NO)])"
      using ok1 len s by (auto simp: c2_def cache_ok_def nth_list_update ex_def)
    from unk assms(1) upd show ?thesis
      by (auto simp: IsOsymbolOrFinal_def Let_def c1_def [symmetric] c2_def [symmetric]
            ex_def [symmetric])
  qed
qed

lemma ConvertToMinimal_loop_filter:
  assumes "\<forall>e \<in> set subs. 0 \<le> state e" "cache_ok ifst osymbol cache"
  shows "\<exists>c. ConvertToMinimal_loop W ifst osymbol subs cache
              = Inr (filter (\<lambda>e. list_ex (\<lambda>arc. osymbol arc \<noteq> 0) (Arcs ifst (state e))) subs, c)
            \<and> cache_ok ifst osymbol c"
  using assms
proof (induction subs arbitrary: cache)
  case Nil
  then show ?case by simp
next
  case (Cons e es)
  from Cons.prems have "0 \<le> state e" by simp
  from IsOsymbolOrFinal_result [OF this Cons.prems(2), of W] obtain c1 where
    c1: "IsOsymbolOrFinal W ifst osymbol cache (state e)
           = Inr (list_ex (\<lambda>arc. osymbol arc \<noteq> 0) (Arcs ifst (state e)), c1)"
        "cache_ok ifst osymbol c1" by blast
  from Cons.prems have "\<forall>e \<in> set es. 0 \<le> state e" by simp
  from Cons.IH [OF this c1(2)] obtain c2 where
    "ConvertToMinimal_loop W ifst osymbol es c1
       = Inr (filter (\<lambda>e. list_ex (\<lambda>arc. osymbol arc \<noteq> 0) (Arcs ifst (state e))) es, c2)"
    "cache_ok ifst osymbol c2" by blast
  with c1(1) show ?case by simp
qed

lemma ConvertToMinimal_keeps:
  assumes "subs \<noteq> []" "\<forall>e \<in> set subs. 0 \<le> state e"
  shows "\<exists>c. ConvertToMinimal W ifst osymbol subs []
              = Inr (filter (\<lambda>e. list_ex (\<lambda>arc. osymbol arc \<noteq> 0) (Arcs ifst (state e))) subs, c)"
proof -
  have "cache_ok ifst osymbol []" by (simp add: cache_ok_def)
  from ConvertToMinimal_loop_filter [OF assms(2) this, of W] assms(1)
  show ?thesis by (auto simp: ConvertToMinimal_def)
qed

text \<open>
  Claim C3. \<open>ConvertToMinimal\<close> does not keep every Element whose state is final: the
  Element of a final state without arcs is removed, whatever \<open>osymbol\<close> reads from
  an arc. (\<open>ConvertToMinimal_keeps\<close> above is what the function does keep: the Elements
  whose state has an arc with a non-zero \<open>osymbol\<close>.)
\<close>

theorem ConvertToMinimal_drops_final_state:
  "Final one_arc_fst 1 \<noteq> Zero_w tropical
   \<and> ConvertToMinimal tropical one_arc_fst osymbol [mk_elem 1 0 (Some 0)] []
       = Inr ([], [OSF_UNKNOWN, OSF_NO])"
  by (simp add: ConvertToMinimal_def IsOsymbolOrFinal_def one_arc_fst_def tropical_def
        mk_elem_def Let_def)

section \<open>ProcessFinal\<close>

text \<open>
  Claim C5. \<open>ProcessFinal\<close> compares the first non-\<open>Zero\<close> final weight with the
  value of the declared, never assigned \<open>final_weight\<close>. On the automaton whose
  start state is final with cost 1 and has a labelled self-loop, \<open>Initialize\<close> stores
  the subset holding the start state as output state 0, and the call of \<open>ProcessFinal\<close>
  that \<open>Determinize\<close> then makes on it records no final-marker where the unassigned
  weight is the cost 0: the run ends with the self-loop as the only record of the state.
  Where the unassigned weight is \<open>Zero\<close>, the same call records the marker.
\<close>

theorem ProcessFinal_drops_final_weight:
  "Initialize tropical final_loop_fst olabel new_Determinizer = Some (Inr final_loop_det)
   \<and> Initialize tropical final_loop_fst ilabel new_Determinizer = Some (Inr final_loop_det)
   \<and> output_states final_loop_det = [[mk_elem 0 0 (Some 0)]]
   \<and> Final final_loop_fst 0 \<noteq> Zero_w tropical
   \<and> ProcessFinal tropical final_loop_fst final_loop_det 0 = Inr final_loop_det
   \<and> (case LatticeDeterminizer tropical final_loop_fst olabel False of
         Some (Inr d) \<Rightarrow>
           output_states d = [[mk_elem 0 0 (Some 0)]]
           \<and> output_arcs d
               = [[\<lparr>ilabel_t = 1, string_t = 1, nextstate_t = 0, weight_t = Some 2\<rparr>]]
       | _ \<Rightarrow> False)
   \<and> Initialize (tropical\<lparr>Default_w := None\<rparr>) final_loop_fst olabel new_Determinizer
       = Some (Inr final_loop_det)
   \<and> ProcessFinal (tropical\<lparr>Default_w := None\<rparr>) final_loop_fst final_loop_det 0
       = Inr (final_loop_det\<lparr>output_arcs :=
           [[\<lparr>ilabel_t = 0, string_t = 0, nextstate_t = kNoStateId, weight_t = Some 1\<rparr>]]\<rparr>)"
  by code_simp

section \<open>The whole run on small automata\<close>

text \<open>
  Claim C1. The automaton with the single path 0 -1:1/3-> 1, state 1 final, accepts the
  input sequence 1 with weight 3. Determinizing it stops at an assertion: the subset
  reached over label 1 holds only the final state 1, \<open>ConvertToMinimal\<close> empties it,
  and \<open>NormalizeSubset\<close> is called on the empty subset. This is so whether
  \<open>osymbol\<close> reads the output or the input label.
\<close>

theorem Determinize_aborts_on_one_arc:
  "LatticeDeterminizer tropical one_arc_fst olabel False = Some (Inl AssertFailed)
   \<and> LatticeDeterminizer tropical one_arc_fst ilabel False = Some (Inl AssertFailed)"
  by code_simp

text \<open>
  Claim C10. When the input has no start state, the determinizer has no output states,
  and both \<open>Output\<close> functions, with either value of \<open>destroy\<close> and whatever the
  destination held, leave an automaton with no states and no start state; so do both
  overloads of \<open>DeterminizeLattice\<close>.
\<close>

theorem no_start_state:
  fixes W :: "'w Weight_ops"
  assumes "Start ifst = kNoStateId"
  shows "LatticeDeterminizer W ifst osymbol debug = Some (Inr new_Determinizer)
       \<and> output_states (new_Determinizer :: 'w Determinizer) = []
       \<and> output_arcs (new_Determinizer :: 'w Determinizer) = []
       \<and> (\<exists>det1. Output_Arc W new_Determinizer ofst destroy
                    = Inr (\<lparr>start_m = kNoStateId, states_m = []\<rparr>, det1))
       \<and> (\<exists>det1. Output_CompactArc W new_Determinizer cofst destroy
                    = Inr (\<lparr>start_m = kNoStateId, states_m = []\<rparr>, det1))
       \<and> DeterminizeLattice_Arc W ifst osymbol debug ofst
           = Some (Inr \<lparr>start_m = kNoStateId, states_m = []\<rparr>)
       \<and> DeterminizeLattice_CompactArc W ifst osymbol debug cofst
           = Some (Inr \<lparr>start_m = kNoStateId, states_m = []\<rparr>)"
proof -
  have i: "Initialize W ifst osymbol new_Determinizer = Some (Inr new_Determinizer)"
    using assms by (simp add: Initialize_def)
  have q: "queue (new_Determinizer :: 'w Determinizer) = []"
    by (simp add: new_Determinizer_def)
  have d: "Determinize W ifst osymbol debug new_Determinizer = Some (Inr new_Determinizer)"
    by (subst Determinize.simps) (simp add: q)
  have l: "LatticeDeterminizer W ifst osymbol debug = Some (Inr new_Determinizer)"
    by (simp add: LatticeDeterminizer_def i d)
  have a: "output_arcs (new_Determinizer :: 'w Determinizer) = []"
    and s: "output_states (new_Determinizer :: 'w Determinizer) = []"
    by (simp_all add: new_Determinizer_def)
  have oa: "Output_Arc W new_Determinizer ofst destroy
              = Inr (\<lparr>start_m = kNoStateId, states_m = []\<rparr>, new_Determinizer)" for destroy
    by (simp add: Output_Arc_def a Let_def DeleteStates_def SetStart_def)
  have oc: "\<exists>det1. Output_CompactArc W new_Determinizer cofst destroy
              = Inr (\<lparr>start_m = kNoStateId, states_m = []\<rparr>, det1)" for destroy
    by (simp add: Output_CompactArc_def a Let_def DeleteStates_def SetStart_def FreeMostMemory_def)
  have da: "DeterminizeLattice_Arc W ifst osymbol debug ofst
           = Some (Inr \<lparr>start_m = kNoStateId, states_m = []\<rparr>)"
    by (simp add: DeterminizeLattice_Arc_def l oa)
  have dc: "DeterminizeLattice_CompactArc W ifst osymbol debug cofst
           = Some (Inr \<lparr>start_m = kNoStateId, states_m = []\<rparr>)"
    using oc [of True] by (auto simp: DeterminizeLattice_CompactArc_def l)
  from l a s oa oc da dc show ?thesis by blast
qed

theorem no_start_state_witness:
  "Start empty_fst = kNoStateId
   \<and> states_m old_fst \<noteq> []
   \<and> states_m old_compact_fst \<noteq> []
   \<and> LatticeDeterminizer tropical empty_fst olabel False = Some (Inr new_Determinizer)
   \<and> DeterminizeLattice_Arc tropical empty_fst olabel False old_fst
       = Some (Inr \<lparr>start_m = kNoStateId, states_m = []\<rparr>)
   \<and> DeterminizeLattice_CompactArc tropical empty_fst olabel False old_compact_fst
       = Some (Inr \<lparr>start_m = kNoStateId, states_m = []\<rparr>)"
proof -
  have a: "Start empty_fst = kNoStateId" by (simp add: empty_fst_def)
  have b: "states_m old_fst \<noteq> []" "states_m old_compact_fst \<noteq> []"
    by (simp_all add: old_fst_def old_compact_fst_def)
  from no_start_state [OF a, where W = tropical and osymbol = olabel and debug = False
      and ofst = old_fst and cofst = old_compact_fst] a b
  show ?thesis by simp
qed


section \<open>EpsilonClosure on epsilon cycles\<close>












section \<open>The main loop keeps the recorded arcs deterministic\<close>

lemma find_in_set: "find P xs = Some x \<Longrightarrow> x \<in> set xs"
  by (induction xs) (auto split: if_splits)

lemma hash_find_in: "hash_find W h key = Some v \<Longrightarrow> \<exists>k. (k, v) \<in> set h"
proof -
  assume "hash_find W h key = Some v"
  then obtain kv where "find (\<lambda>kv. SubsetEqual W (fst kv) key) h = Some kv" "snd kv = v"
    by (auto simp: hash_find_def)
  then have "(fst kv, v) \<in> set h" by (auto dest: find_in_set)
  then show ?thesis ..
qed

lemma hash_assign_set:
  "kv \<in> set (hash_assign W h key v) \<Longrightarrow> kv \<in> set h \<or> snd kv = v"
  by (induction h) (auto split: if_splits)

lemma expanding_cong:
  assumes "output_arcs st' = output_arcs st" "queue st' = queue st"
    "minimal_hash st' = minimal_hash st" "initial_hash st' = initial_hash st"
  shows "expanding q st' = expanding q st"
  using assms by (simp add: expanding_def hash_nonneg_def)

lemma MinimalToStateId_cases:
  assumes "MinimalToStateId W st subs = (ans, st')"
  shows "(st' = st \<and> (\<exists>k. (k, ans) \<in> set (minimal_hash st)))
       \<or> (ans = int (length (output_arcs st))
          \<and> output_arcs st' = output_arcs st @ [[]]
          \<and> queue st' = queue st @ [ans]
          \<and> minimal_hash st' = hash_assign W (minimal_hash st) subs ans
          \<and> initial_hash st' = initial_hash st)"
proof (cases "hash_find W (minimal_hash st) subs")
  case (Some a)
  with assms have "ans = a" "st' = st" by (simp_all add: MinimalToStateId_def)
  with hash_find_in [OF Some] show ?thesis by simp
next
  case None
  with assms have "st' = st\<lparr>output_states := output_states st @ [subs],
                       output_arcs := output_arcs st @ [[]],
                       minimal_hash := hash_assign W (minimal_hash st) subs ans,
                       queue := queue st @ [ans]\<rparr>"
    and "ans = int (length (output_arcs st))"
    by (auto simp: MinimalToStateId_def Let_def)
  then show ?thesis by simp
qed

lemma MinimalToStateId_expanding:
  assumes e: "expanding q st" and m: "MinimalToStateId W st subs = (ans, st')"
  shows "expanding q st' \<and> output_arcs st' ! nat q = output_arcs st ! nat q \<and> 0 \<le> ans"
proof -
  define n where "n = length (output_arcs st)"
  from e have q: "0 \<le> q" "nat q < n"
    and qu: "\<And>x. x \<in> set (queue st) \<Longrightarrow>
               0 \<le> x \<and> nat x < n \<and> output_arcs st ! nat x = [] \<and> x \<noteq> q"
    and di: "distinct (queue st)"
    and de: "\<And>s. s < n \<Longrightarrow> s \<noteq> nat q \<Longrightarrow> arcs_det (output_arcs st ! s)"
    and hm: "\<And>kv. kv \<in> set (minimal_hash st) \<Longrightarrow> 0 \<le> snd kv"
    and hi: "\<And>kv. kv \<in> set (initial_hash st) \<Longrightarrow> 0 \<le> state (snd kv)"
    unfolding expanding_def hash_nonneg_def n_def by blast+
  from MinimalToStateId_cases [OF m] show ?thesis
  proof (elim disjE conjE exE)
    fix k assume "st' = st" "(k, ans) \<in> set (minimal_hash st)"
    with hm [of "(k, ans)"] e show ?thesis by simp
  next
    assume ans: "ans = int (length (output_arcs st))"
      and oa: "output_arcs st' = output_arcs st @ [[]]"
      and qa: "queue st' = queue st @ [ans]"
      and mh: "minimal_hash st' = hash_assign W (minimal_hash st) subs ans"
      and ih: "initial_hash st' = initial_hash st"
    have an: "ans = int n" using ans by (simp add: n_def)
    have len: "length (output_arcs st') = Suc n" by (simp add: oa n_def)
    have nth_old: "output_arcs st' ! s = output_arcs st ! s" if "s < n" for s
      using that by (simp add: oa nth_append n_def)
    have nth_new: "output_arcs st' ! n = []" by (simp add: oa n_def)
    have c1: "0 \<le> q \<and> nat q < length (output_arcs st')" using q len by simp
    have c2: "0 \<le> x \<and> nat x < length (output_arcs st') \<and> output_arcs st' ! nat x = [] \<and> x \<noteq> q"
      if "x \<in> set (queue st')" for x
    proof (cases "x = ans")
      case True
      with an q nth_new len show ?thesis by auto
    next
      case False
      with that qa have "x \<in> set (queue st)" by simp
      from qu [OF this] nth_old [of "nat x"] len show ?thesis by simp
    qed
    have "ans \<notin> set (queue st)"
    proof
      assume "ans \<in> set (queue st)"
      from qu [OF this] an show False by simp
    qed
    with di have c3: "distinct (queue st')" by (simp add: qa)
    have c4: "arcs_det (output_arcs st' ! s)" if "s < length (output_arcs st')" "s \<noteq> nat q" for s
    proof (cases "s < n")
      case True
      with de [OF True that(2)] nth_old [OF True] show ?thesis by simp
    next
      case False
      with that(1) len have "s = n" by simp
      with nth_new show ?thesis by (simp add: arcs_det_def)
    qed
    have c5: "hash_nonneg st'"
      unfolding hash_nonneg_def
    proof (intro conjI ballI)
      fix kv assume "kv \<in> set (minimal_hash st')"
      then have "kv \<in> set (minimal_hash st) \<or> snd kv = ans"
        unfolding mh by (rule hash_assign_set)
      with hm [of kv] an show "0 \<le> snd kv" by auto
    next
      fix kv assume "kv \<in> set (initial_hash st')"
      with ih hi [of kv] show "0 \<le> state (snd kv)" by simp
    qed
    have "expanding q st'"
      unfolding expanding_def using c1 c2 c3 c4 c5 by blast
    with nth_old [OF q(2)] an show ?thesis by simp
  qed
qed

lemma expandingI:
  assumes "0 \<le> q" "nat q < length (output_arcs st)"
    and "\<And>x. x \<in> set (queue st) \<Longrightarrow>
           0 \<le> x \<and> nat x < length (output_arcs st) \<and> output_arcs st ! nat x = [] \<and> x \<noteq> q"
    and "distinct (queue st)"
    and "\<And>s. s < length (output_arcs st) \<Longrightarrow> s \<noteq> nat q \<Longrightarrow> arcs_det (output_arcs st ! s)"
    and "hash_nonneg st"
  shows "expanding q st"
  unfolding expanding_def using assms by blast

lemma expandingD:
  assumes "expanding q st"
  shows "0 \<le> q" "nat q < length (output_arcs st)"
    and "\<And>x. x \<in> set (queue st) \<Longrightarrow>
           0 \<le> x \<and> nat x < length (output_arcs st) \<and> output_arcs st ! nat x = [] \<and> x \<noteq> q"
    and "distinct (queue st)"
    and "\<And>s. s < length (output_arcs st) \<Longrightarrow> s \<noteq> nat q \<Longrightarrow> arcs_det (output_arcs st ! s)"
    and "hash_nonneg st"
  using assms unfolding expanding_def by blast+

lemma hash_nonnegD:
  assumes "hash_nonneg st"
  shows "\<And>kv. kv \<in> set (minimal_hash st) \<Longrightarrow> 0 \<le> snd kv"
    and "\<And>kv. kv \<in> set (initial_hash st) \<Longrightarrow> 0 \<le> state (snd kv)"
  using assms unfolding hash_nonneg_def by blast+

lemma hash_update_expanding:
  assumes e1: "expanding q st1" and ans: "0 \<le> state v"
    and st': "st' = st1\<lparr>initial_hash := hash_assign W (initial_hash st1) key v\<rparr>"
  shows "expanding q st'"
proof -
  have oa: "output_arcs st' = output_arcs st1" and qu: "queue st' = queue st1"
    and mh: "minimal_hash st' = minimal_hash st1"
    and ih: "initial_hash st' = hash_assign W (initial_hash st1) key v"
    by (simp_all add: st')
  note h1 = hash_nonnegD [OF expandingD(6) [OF e1]]
  have hn: "hash_nonneg st'"
    unfolding hash_nonneg_def
  proof (intro conjI ballI)
    fix kv assume "kv \<in> set (minimal_hash st')"
    with h1(1) [of kv] show "0 \<le> snd kv" by (simp add: mh)
  next
    fix kv assume "kv \<in> set (initial_hash st')"
    then have "kv \<in> set (initial_hash st1) \<or> snd kv = v"
      unfolding ih by (rule hash_assign_set)
    then show "0 \<le> state (snd kv)"
    proof
      assume "kv \<in> set (initial_hash st1)"
      then show ?thesis by (rule h1(2))
    next
      assume "snd kv = v"
      with ans show ?thesis by simp
    qed
  qed
  show "expanding q st'"
  proof (rule expandingI)
    show "0 \<le> q" by (rule expandingD(1) [OF e1])
    show "nat q < length (output_arcs st')" using expandingD(2) [OF e1] by (simp add: oa)
    show "distinct (queue st')" using expandingD(4) [OF e1] by (simp add: qu)
    show "hash_nonneg st'" by (rule hn)
    show "0 \<le> x \<and> nat x < length (output_arcs st') \<and> output_arcs st' ! nat x = [] \<and> x \<noteq> q"
      if "x \<in> set (queue st')" for x
      using expandingD(3) [OF e1, of x] that by (simp add: oa qu)
    show "arcs_det (output_arcs st' ! s)" if "s < length (output_arcs st')" "s \<noteq> nat q" for s
      using expandingD(5) [OF e1, of s] that by (simp add: oa)
  qed
qed

lemma InitialToStateId_cases:
  assumes "InitialToStateId W ifst osymbol st subset_in = Some (Inr (ans, w, str, st'))"
  shows "(st' = st \<and> (\<exists>k e. (k, e) \<in> set (initial_hash st) \<and> state e = ans))
       \<or> (\<exists>cache1 repo2 subs3 st1 es ew.
             MinimalToStateId W (st\<lparr>osymbol_or_final := cache1, repository := repo2\<rparr>) subs3
               = (ans, st1)
           \<and> st' = st1\<lparr>initial_hash := hash_assign W (initial_hash st1) subset_in
                                        \<lparr>state = ans, string = es, weight = ew\<rparr>\<rparr>)"
proof (cases "hash_find W (initial_hash st) subset_in")
  case (Some elem)
  with assms have "ans = state elem" "st' = st" by (simp_all add: InitialToStateId_def)
  with hash_find_in [OF Some] show ?thesis by auto
next
  case None
  from assms None obtain subs1 repo1 where
    ec: "EpsilonClosure W ifst (repository st) subset_in = Some (Inr (subs1, repo1))"
    by (simp add: InitialToStateId_def split: option.splits sum.splits prod.splits)
  from assms None ec obtain subs2 cache1 where
    cm: "ConvertToMinimal W ifst osymbol subs1 (osymbol_or_final st) = Inr (subs2, cache1)"
    by (simp add: InitialToStateId_def split: sum.splits prod.splits)
  from assms None ec cm obtain subs3 es ew repo2 where
    ns: "NormalizeSubset W repo1 subs2 = Inr (subs3, es, ew, repo2)"
    by (simp add: InitialToStateId_def split: sum.splits prod.splits)
  obtain a st1 where
    m: "MinimalToStateId W (st\<lparr>osymbol_or_final := cache1, repository := repo2\<rparr>) subs3 = (a, st1)"
    by (cases "MinimalToStateId W (st\<lparr>osymbol_or_final := cache1, repository := repo2\<rparr>) subs3")
  from assms None ec cm ns m have "ans = a"
    and "st' = st1\<lparr>initial_hash := hash_assign W (initial_hash st1) subset_in
                                        \<lparr>state = a, string = es, weight = ew\<rparr>\<rparr>"
    by (auto simp: InitialToStateId_def)
  with m show ?thesis by blast
qed

lemma InitialToStateId_expanding:
  assumes e: "expanding q st"
    and i: "InitialToStateId W ifst osymbol st subset_in = Some (Inr (ans, w, str, st'))"
  shows "expanding q st' \<and> output_arcs st' ! nat q = output_arcs st ! nat q \<and> 0 \<le> ans"
  using InitialToStateId_cases [OF i]
proof (elim disjE conjE exE)
  fix k el assume a: "st' = st" "(k, el) \<in> set (initial_hash st)" "state el = ans"
  from hash_nonnegD(2) [OF expandingD(6) [OF e] a(2)] a(3) have "0 \<le> ans" by simp
  with a(1) e show ?thesis by simp
next
  fix cache1 repo2 subs3 st1 es ew
  assume m: "MinimalToStateId W (st\<lparr>osymbol_or_final := cache1, repository := repo2\<rparr>) subs3
               = (ans, st1)"
    and st': "st' = st1\<lparr>initial_hash := hash_assign W (initial_hash st1) subset_in
                                        \<lparr>state = ans, string = es, weight = ew\<rparr>\<rparr>"
  have "expanding q (st\<lparr>osymbol_or_final := cache1, repository := repo2\<rparr>) = expanding q st"
    by (rule expanding_cong) simp_all
  with e have "expanding q (st\<lparr>osymbol_or_final := cache1, repository := repo2\<rparr>)" by simp
  from MinimalToStateId_expanding [OF this m]
  have e1: "expanding q st1"
    and a1: "output_arcs st1 ! nat q
               = output_arcs (st\<lparr>osymbol_or_final := cache1, repository := repo2\<rparr>) ! nat q"
    and ans: "0 \<le> ans" by blast+
  from ans have "0 \<le> state \<lparr>state = ans, string = es, weight = ew\<rparr>" by simp
  from hash_update_expanding [OF e1 this st'] have "expanding q st'" .
  moreover have "output_arcs st' = output_arcs st1" by (simp add: st')
  ultimately show ?thesis using a1 ans by simp
qed

lemma push_arc_Inr:
  "push_arc st s a = Inr st' \<Longrightarrow>
     0 \<le> s \<and> nat s < length (output_arcs st)
     \<and> st' = st\<lparr>output_arcs := (output_arcs st)[nat s := output_arcs st ! nat s @ [a]]\<rparr>"
  by (auto simp: push_arc_def split: if_splits)

lemma expanding_push:
  assumes e: "expanding q st" and p: "push_arc st q a = Inr st'"
  shows "expanding q st' \<and> output_arcs st' ! nat q = output_arcs st ! nat q @ [a]"
proof -
  from push_arc_Inr [OF p] have q: "0 \<le> q" "nat q < length (output_arcs st)"
    and st': "st' = st\<lparr>output_arcs := (output_arcs st)[nat q := output_arcs st ! nat q @ [a]]\<rparr>"
    by simp_all
  have oa: "output_arcs st' = (output_arcs st)[nat q := output_arcs st ! nat q @ [a]]"
    and qu: "queue st' = queue st"
    and mh: "minimal_hash st' = minimal_hash st" and ih: "initial_hash st' = initial_hash st"
    by (simp_all add: st')
  have len: "length (output_arcs st') = length (output_arcs st)" by (simp add: oa)
  have nth_other: "output_arcs st' ! s = output_arcs st ! s" if "s \<noteq> nat q" for s
    using that by (simp add: oa)
  have "expanding q st'"
  proof (rule expandingI)
    show "0 \<le> q" by (rule q)
    show "nat q < length (output_arcs st')" using q by (simp add: len)
    show "distinct (queue st')" using expandingD(4) [OF e] by (simp add: qu)
    show "hash_nonneg st'" using expandingD(6) [OF e] by (simp add: hash_nonneg_def mh ih)
    show "0 \<le> x \<and> nat x < length (output_arcs st') \<and> output_arcs st' ! nat x = [] \<and> x \<noteq> q"
      if "x \<in> set (queue st')" for x
    proof -
      from that have x: "0 \<le> x \<and> nat x < length (output_arcs st) \<and> output_arcs st ! nat x = [] \<and> x \<noteq> q"
        using expandingD(3) [OF e, of x] by (simp add: qu)
      with q have "nat x \<noteq> nat q" by auto
      from nth_other [OF this] x show ?thesis by (simp add: len)
    qed
    show "arcs_det (output_arcs st' ! s)" if "s < length (output_arcs st')" "s \<noteq> nat q" for s
      using expandingD(5) [OF e, of s] that nth_other [of s] by (simp add: len)
  qed
  moreover have "output_arcs st' ! nat q = output_arcs st ! nat q @ [a]"
    using q by (simp add: oa)
  ultimately show ?thesis by simp
qed

lemma ProcessTransition_cases:
  assumes "ProcessTransition W ifst osymbol st s il subs = Some (Inr st')"
  shows "\<exists>subs2 repo1 next_state w str st1 repo2 a.
           InitialToStateId W ifst osymbol (st\<lparr>repository := repo1\<rparr>) subs2
             = Some (Inr (next_state, w, str, st1))
         \<and> push_arc (st1\<lparr>repository := repo2\<rparr>) s a = Inr st'
         \<and> ilabel_t a = il \<and> nextstate_t a = next_state"
proof -
  from assms obtain subs1 where
    u: "MakeSubsetUnique W (repository st) subs = Inr subs1"
    by (simp add: ProcessTransition_def split: sum.splits)
  from assms u obtain subs2 common_str tot_weight repo1 where
    n: "NormalizeSubset W (repository st) subs1 = Inr (subs2, common_str, tot_weight, repo1)"
    by (simp add: ProcessTransition_def split: sum.splits prod.splits)
  from assms u n obtain next_state w str st1 where
    i: "InitialToStateId W ifst osymbol (st\<lparr>repository := repo1\<rparr>) subs2
          = Some (Inr (next_state, w, str, st1))"
    by (simp add: ProcessTransition_def split: option.splits sum.splits prod.splits)
  from assms u n i obtain common_str1 repo2 where
    c: "Concatenate (repository st1) common_str str = Inr (common_str1, repo2)"
    by (simp add: ProcessTransition_def split: sum.splits prod.splits)
  from assms u n i c have
    "push_arc (st1\<lparr>repository := repo2\<rparr>) s
       \<lparr>ilabel_t = il, string_t = common_str1, nextstate_t = next_state,
        weight_t = Times_w W tot_weight w\<rparr> = Inr st'"
    by (simp add: ProcessTransition_def)
  with i show ?thesis by fastforce
qed

lemma ProcessTransition_expanding:
  assumes e: "expanding q st"
    and p: "ProcessTransition W ifst osymbol st q il subs = Some (Inr st')"
  shows "expanding q st' \<and>
         (\<exists>a. output_arcs st' ! nat q = output_arcs st ! nat q @ [a]
              \<and> ilabel_t a = il \<and> 0 \<le> nextstate_t a)"
proof -
  from ProcessTransition_cases [OF p] obtain subs2 repo1 next_state w str st1 repo2 a where
    i: "InitialToStateId W ifst osymbol (st\<lparr>repository := repo1\<rparr>) subs2
          = Some (Inr (next_state, w, str, st1))"
    and pa: "push_arc (st1\<lparr>repository := repo2\<rparr>) q a = Inr st'"
    and a: "ilabel_t a = il" "nextstate_t a = next_state"
    by blast
  have "expanding q (st\<lparr>repository := repo1\<rparr>) = expanding q st"
    by (rule expanding_cong) simp_all
  with e have "expanding q (st\<lparr>repository := repo1\<rparr>)" by simp
  from InitialToStateId_expanding [OF this i]
  have e1: "expanding q st1"
    and a1: "output_arcs st1 ! nat q = output_arcs (st\<lparr>repository := repo1\<rparr>) ! nat q"
    and ns: "0 \<le> next_state" by blast+
  have "expanding q (st1\<lparr>repository := repo2\<rparr>) = expanding q st1"
    by (rule expanding_cong) simp_all
  with e1 have "expanding q (st1\<lparr>repository := repo2\<rparr>)" by simp
  from expanding_push [OF this pa]
  have "expanding q st'"
    and "output_arcs st' ! nat q = output_arcs (st1\<lparr>repository := repo2\<rparr>) ! nat q @ [a]"
    by blast+
  with a1 a ns show ?thesis by simp
qed

lemma PairComparator_le:
  "PairComparator p q \<Longrightarrow> fst p \<le> fst q"
  "\<not> PairComparator p q \<Longrightarrow> fst q \<le> fst p"
  by (auto simp: PairComparator_def split: if_splits)

lemma set_insert_pair: "set (insert_pair p qs) = insert p (set qs)"
  by (induction qs) auto

lemma sorted_insert_pair:
  "sorted_wrt (\<lambda>p p'. fst p \<le> fst p') qs \<Longrightarrow> sorted_wrt (\<lambda>p p'. fst p \<le> fst p') (insert_pair p qs)"
proof (induction qs)
  case Nil
  then show ?case by simp
next
  case (Cons q qs)
  show ?case
  proof (cases "PairComparator p q")
    case True
    from PairComparator_le(1) [OF True] Cons.prems show ?thesis
      using True by (auto intro: order_trans)
  next
    case False
    from PairComparator_le(2) [OF False] Cons show ?thesis
      using False by (auto simp: set_insert_pair)
  qed
qed

lemma sort_pairs_sorted: "sorted_wrt (\<lambda>p p'. fst p \<le> fst p') (sort_pairs ps)"
  unfolding sort_pairs_def by (induction ps) (auto intro: sorted_insert_pair)

lemma set_sort_pairs: "set (sort_pairs ps) = set ps"
  unfolding sort_pairs_def by (induction ps) (auto simp: set_insert_pair)

lemma all_elems_arcs_nonzero:
  "p \<in> set (fst (all_elems_arcs W elem arcs repo)) \<Longrightarrow> fst p \<noteq> 0"
proof (induction arcs arbitrary: repo)
  case Nil
  then show ?case by simp
next
  case (Cons arc arcs)
  show ?case
  proof (cases "ilabel arc \<noteq> 0 \<and> weight_a arc \<noteq> Zero_w W")
    case True
    obtain str repo1 where n: "next_string repo (string elem) (olabel arc) = (str, repo1)"
      by (cases "next_string repo (string elem) (olabel arc)")
    obtain tl_elems repo2 where r: "all_elems_arcs W elem arcs repo1 = (tl_elems, repo2)"
      by (cases "all_elems_arcs W elem arcs repo1")
    from Cons.prems True n r have "fst p = ilabel arc \<or> p \<in> set tl_elems" by auto
    with True r Cons.IH [of repo1] show ?thesis by auto
  next
    case False
    with Cons show ?thesis by auto
  qed
qed

lemma all_elems_subset_nonzero:
  "p \<in> set (fst (all_elems_subset W ifst subs repo)) \<Longrightarrow> fst p \<noteq> 0"
proof (induction subs arbitrary: repo)
  case Nil
  then show ?case by simp
next
  case (Cons e es)
  obtain ps repo1 where a: "all_elems_arcs W e (Arcs ifst (state e)) repo = (ps, repo1)"
    by (cases "all_elems_arcs W e (Arcs ifst (state e)) repo")
  obtain tl_elems repo2 where b: "all_elems_subset W ifst es repo1 = (tl_elems, repo2)"
    by (cases "all_elems_subset W ifst es repo1")
  from Cons.prems a b have "p \<in> set ps \<or> p \<in> set tl_elems" by simp
  then show ?case
  proof
    assume "p \<in> set ps"
    with a all_elems_arcs_nonzero [of p W e "Arcs ifst (state e)" repo] show ?thesis by simp
  next
    assume "p \<in> set tl_elems"
    with b Cons.IH [of repo1] show ?thesis by simp
  qed
qed

lemma dropWhile_sorted_greater:
  assumes "sorted_wrt (\<lambda>p p'. (fst p :: int) \<le> fst p') (c # rest)"
    and "p \<in> set (dropWhile (\<lambda>p. fst p = fst c) rest)"
  shows "fst c < fst p"
  using assms
proof (induction rest)
  case Nil
  then show ?case by simp
next
  case (Cons r rest)
  show ?case
  proof (cases "fst r = fst c")
    case True
    with Cons show ?thesis by auto
  next
    case False
    from Cons.prems(1) have "fst c \<le> fst r" "\<forall>x \<in> set rest. fst r \<le> fst x" by auto
    with False have "fst c < fst r" "\<forall>x \<in> set rest. fst c < fst x" by auto
    with Cons.prems(2) False show ?thesis by auto
  qed
qed

lemma arcs_det_snoc:
  assumes "arcs_det arcs" "ilabel_t a \<notin> ilabel_t ` set arcs" "ilabel_t a \<noteq> 0" "0 \<le> nextstate_t a"
  shows "arcs_det (arcs @ [a])"
  using assms by (auto simp: arcs_det_def kNoStateId_def)

lemma ProcessTransitions_ranges_expanding:
  assumes "expanding q st" "arcs_det (output_arcs st ! nat q)"
    and "sorted_wrt (\<lambda>p p'. fst p \<le> fst p') ps"
    and "\<forall>p \<in> set ps. fst p \<noteq> 0"
    and "\<forall>a \<in> set (output_arcs st ! nat q). \<forall>p \<in> set ps. ilabel_t a \<noteq> fst p"
    and "ProcessTransitions_ranges W ifst osymbol q ps st = Some (Inr st')"
  shows "expanding q st' \<and> arcs_det (output_arcs st' ! nat q)"
  using assms
proof (induction W ifst osymbol q ps st rule: ProcessTransitions_ranges.induct)
  case (1 W ifst osymbol s st)
  then show ?case by simp
next
  case (2 W ifst osymbol s cur rest st)
  let ?subs = "snd cur # map snd (takeWhile (\<lambda>p. fst p = fst cur) rest)"
  let ?rest = "dropWhile (\<lambda>p. fst p = fst cur) rest"
  from "2.prems"(6) obtain st1 where
    pt: "ProcessTransition W ifst osymbol st s (fst cur) ?subs = Some (Inr st1)"
    and rec: "ProcessTransitions_ranges W ifst osymbol s ?rest st1 = Some (Inr st')"
    by (auto split: option.splits sum.splits)
  from ProcessTransition_expanding [OF "2.prems"(1) pt] obtain a where
    e1: "expanding s st1"
    and a: "output_arcs st1 ! nat s = output_arcs st ! nat s @ [a]" "ilabel_t a = fst cur"
       "0 \<le> nextstate_t a" by blast
  from "2.prems"(4) have nz: "fst cur \<noteq> 0" by simp
  from "2.prems"(5) a(2) have "ilabel_t a \<notin> ilabel_t ` set (output_arcs st ! nat s)" by auto
  from arcs_det_snoc [OF "2.prems"(2) this] nz a
  have d1: "arcs_det (output_arcs st1 ! nat s)" by simp
  have sub: "set ?rest \<subseteq> set rest" by (rule set_dropWhileD [THEN subsetI])
  have s1: "sorted_wrt (\<lambda>p p'. fst p \<le> fst p') ?rest"
  proof -
    from "2.prems"(3) have "sorted_wrt (\<lambda>p p'. fst p \<le> fst p') rest" by simp
    then have "sorted_wrt (\<lambda>p p'. fst p \<le> fst p')
                 (takeWhile (\<lambda>p. fst p = fst cur) rest @ ?rest)" by simp
    then show ?thesis unfolding sorted_wrt_append by blast
  qed
  from "2.prems"(4) sub have n1: "\<forall>p \<in> set ?rest. fst p \<noteq> 0" by auto
  have l1: "\<forall>b \<in> set (output_arcs st1 ! nat s). \<forall>p \<in> set ?rest. ilabel_t b \<noteq> fst p"
  proof (intro ballI)
    fix b p assume b: "b \<in> set (output_arcs st1 ! nat s)" and p: "p \<in> set ?rest"
    from b a(1) have "b \<in> set (output_arcs st ! nat s) \<or> b = a" by auto
    then show "ilabel_t b \<noteq> fst p"
    proof
      assume "b \<in> set (output_arcs st ! nat s)"
      with "2.prems"(5) p sub show ?thesis by auto
    next
      assume "b = a"
      with dropWhile_sorted_greater [OF "2.prems"(3) p] a(2) show ?thesis by simp
    qed
  qed
  from "2.IH" [OF pt refl e1 d1 s1 n1 l1 rec] show ?case .
qed

lemma ProcessFinal_cases:
  assumes "ProcessFinal W ifst st q = Inr st'"
  shows "st' = st \<or>
         (\<exists>a. push_arc st q a = Inr st' \<and> ilabel_t a = 0 \<and> nextstate_t a = kNoStateId)"
proof -
  from assms have r: "0 \<le> q \<and> nat q < length (output_states st)"
    by (simp add: ProcessFinal_def split: if_splits)
  with assms obtain is_final final_string final_weight where
    l: "ProcessFinal_loop W ifst (repository st) (output_states st ! nat q)
          (False, 0, Default_w W) = Inr (is_final, final_string, final_weight)"
    by (simp add: ProcessFinal_def split: sum.splits prod.splits)
  show ?thesis
  proof (cases is_final)
    case True
    with assms r l have
      "push_arc st q \<lparr>ilabel_t = 0, string_t = final_string, nextstate_t = kNoStateId,
                      weight_t = final_weight\<rparr> = Inr st'"
      by (simp add: ProcessFinal_def)
    then show ?thesis by fastforce
  next
    case False
    with assms r l show ?thesis by (simp add: ProcessFinal_def)
  qed
qed

lemma ProcessFinal_expanding:
  assumes e: "expanding q st" and em: "output_arcs st ! nat q = []"
    and p: "ProcessFinal W ifst st q = Inr st'"
  shows "expanding q st' \<and> arcs_det (output_arcs st' ! nat q)
         \<and> (\<forall>a \<in> set (output_arcs st' ! nat q). ilabel_t a = 0)"
  using ProcessFinal_cases [OF p]
proof (elim disjE exE conjE)
  assume "st' = st"
  with e em show ?thesis by (simp add: arcs_det_def)
next
  fix a assume pa: "push_arc st q a = Inr st'" and a: "ilabel_t a = 0" "nextstate_t a = kNoStateId"
  from expanding_push [OF e pa] em
  have "expanding q st'" "output_arcs st' ! nat q = [a]" by simp_all
  with a show ?thesis by (simp add: arcs_det_def)
qed

lemma ProcessTransitions_expanding:
  assumes e: "expanding q st" and d: "arcs_det (output_arcs st ! nat q)"
    and z: "\<forall>a \<in> set (output_arcs st ! nat q). ilabel_t a = 0"
    and p: "ProcessTransitions W ifst osymbol st q = Some (Inr st')"
  shows "expanding q st' \<and> arcs_det (output_arcs st' ! nat q)"
proof -
  from p have r: "0 \<le> q \<and> nat q < length (output_states st)"
    by (simp add: ProcessTransitions_def split: if_splits)
  obtain all_elems repo1 where
    ae: "all_elems_subset W ifst (output_states st ! nat q) (repository st) = (all_elems, repo1)"
    by (cases "all_elems_subset W ifst (output_states st ! nat q) (repository st)")
  from p r ae have rg: "ProcessTransitions_ranges W ifst osymbol q (sort_pairs all_elems)
                     (st\<lparr>repository := repo1\<rparr>) = Some (Inr st')"
    by (simp add: ProcessTransitions_def)
  have "expanding q (st\<lparr>repository := repo1\<rparr>) = expanding q st"
    by (rule expanding_cong) simp_all
  with e have e1: "expanding q (st\<lparr>repository := repo1\<rparr>)" by simp
  have d1: "arcs_det (output_arcs (st\<lparr>repository := repo1\<rparr>) ! nat q)" using d by simp
  have nz: "\<forall>p \<in> set (sort_pairs all_elems). fst p \<noteq> 0"
  proof
    fix p assume "p \<in> set (sort_pairs all_elems)"
    then have "p \<in> set (fst (all_elems_subset W ifst (output_states st ! nat q) (repository st)))"
      by (simp add: set_sort_pairs ae)
    then show "fst p \<noteq> 0" by (rule all_elems_subset_nonzero)
  qed
  have l1: "\<forall>a \<in> set (output_arcs (st\<lparr>repository := repo1\<rparr>) ! nat q).
              \<forall>p \<in> set (sort_pairs all_elems). ilabel_t a \<noteq> fst p"
    using z nz by auto
  from ProcessTransitions_ranges_expanding [OF e1 d1 sort_pairs_sorted nz l1 rg]
  show ?thesis .
qed

lemma ProcessState_expanding:
  assumes e: "expanding q st" and em: "output_arcs st ! nat q = []"
    and p: "ProcessState W ifst osymbol st q = Some (Inr st')"
  shows "expanding q st' \<and> arcs_det (output_arcs st' ! nat q)"
proof -
  from p obtain st1 where f: "ProcessFinal W ifst st q = Inr st1"
    and t: "ProcessTransitions W ifst osymbol st1 q = Some (Inr st')"
    by (auto simp: ProcessState_def split: sum.splits)
  from ProcessFinal_expanding [OF e em f]
  have "expanding q st1" "arcs_det (output_arcs st1 ! nat q)"
    "\<forall>a \<in> set (output_arcs st1 ! nat q). ilabel_t a = 0" by blast+
  from ProcessTransitions_expanding [OF this t] show ?thesis .
qed

lemma expanding_det_inv:
  assumes e: "expanding q st" and d: "arcs_det (output_arcs st ! nat q)"
  shows "det_inv st"
  unfolding det_inv_def
proof (intro conjI ballI allI impI)
  fix x assume "x \<in> set (queue st)"
  from expandingD(3) [OF e this]
  show "0 \<le> x" "nat x < length (output_arcs st)" "output_arcs st ! nat x = []" by simp_all
next
  show "distinct (queue st)" by (rule expandingD(4) [OF e])
  show "hash_nonneg st" by (rule expandingD(6) [OF e])
next
  fix s assume "s < length (output_arcs st)"
  with expandingD(5) [OF e, of s] d show "arcs_det (output_arcs st ! s)"
    by (cases "s = nat q") auto
qed

lemma det_inv_pop:
  assumes i: "det_inv st" and ne: "queue st \<noteq> []"
  shows "expanding (last (queue st)) (st\<lparr>queue := butlast (queue st)\<rparr>)
       \<and> output_arcs (st\<lparr>queue := butlast (queue st)\<rparr>) ! nat (last (queue st)) = []"
proof -
  let ?q = "last (queue st)"
  from i have qu: "\<And>x. x \<in> set (queue st) \<Longrightarrow>
        0 \<le> x \<and> nat x < length (output_arcs st) \<and> output_arcs st ! nat x = []"
    and di: "distinct (queue st)"
    and de: "\<And>s. s < length (output_arcs st) \<Longrightarrow> arcs_det (output_arcs st ! s)"
    and hn: "hash_nonneg st"
    unfolding det_inv_def by blast+
  from ne have qin: "?q \<in> set (queue st)" by simp
  from ne have split: "queue st = butlast (queue st) @ [?q]" by simp
  with di have notin: "?q \<notin> set (butlast (queue st))"
    by (metis distinct_append distinct.simps(2) disjoint_iff list.set_intros(1))
  have "expanding ?q (st\<lparr>queue := butlast (queue st)\<rparr>)"
  proof (rule expandingI)
    show "0 \<le> ?q" using qu [OF qin] by simp
    show "nat ?q < length (output_arcs (st\<lparr>queue := butlast (queue st)\<rparr>))"
      using qu [OF qin] by simp
    show "distinct (queue (st\<lparr>queue := butlast (queue st)\<rparr>))"
      using di by (simp add: distinct_butlast)
    show "hash_nonneg (st\<lparr>queue := butlast (queue st)\<rparr>)"
      using hn by (simp add: hash_nonneg_def)
    show "0 \<le> x \<and> nat x < length (output_arcs (st\<lparr>queue := butlast (queue st)\<rparr>))
          \<and> output_arcs (st\<lparr>queue := butlast (queue st)\<rparr>) ! nat x = [] \<and> x \<noteq> ?q"
      if "x \<in> set (queue (st\<lparr>queue := butlast (queue st)\<rparr>))" for x
    proof -
      from that have xb: "x \<in> set (butlast (queue st))" by simp
      then have "x \<in> set (queue st)" by (rule in_set_butlastD)
      from qu [OF this] xb notin show ?thesis by auto
    qed
    show "arcs_det (output_arcs (st\<lparr>queue := butlast (queue st)\<rparr>) ! s)"
      if "s < length (output_arcs (st\<lparr>queue := butlast (queue st)\<rparr>))" for s
      using de [of s] that by simp
  qed
  moreover have "output_arcs (st\<lparr>queue := butlast (queue st)\<rparr>) ! nat ?q = []"
    using qu [OF qin] by simp
  ultimately show ?thesis by simp
qed

lemma Determinize_det_inv:
  assumes "Determinize W ifst osymbol debug st = Some y"
  shows "det_inv st \<longrightarrow> (\<forall>st'. y = Inr st' \<longrightarrow> det_inv st' \<and> queue st' = [])"
proof (rule Determinize.raw_induct
    [where P = "\<lambda>W ifst osymbol debug st y.
        det_inv st \<longrightarrow> (\<forall>st'. y = Inr st' \<longrightarrow> det_inv st' \<and> queue st' = [])", OF _ assms],
    goal_cases)
  case (1 f W ifst osymbol debug st y)
  show ?case
  proof (intro impI allI)
    fix st' assume i: "det_inv st" and y: "y = Inr st'"
    show "det_inv st' \<and> queue st' = []"
    proof (cases "queue st = []")
      case True
      with 1(2) y i show ?thesis by simp
    next
      case False
      let ?q = "last (queue st)"
      let ?st = "st\<lparr>queue := butlast (queue st)\<rparr>"
      from 1(2) False y obtain st1 where
        ps: "ProcessState W ifst osymbol ?st ?q = Some (Inr st1)"
        and rec: "f W ifst osymbol debug st1 = Some (Inr st')"
        by (auto split: option.splits sum.splits if_splits)
      from det_inv_pop [OF i False]
      have "expanding ?q ?st" "output_arcs ?st ! nat ?q = []" by simp_all
      from ProcessState_expanding [OF this ps]
      have "det_inv st1" by (auto intro: expanding_det_inv)
      with 1(1) [OF rec] show ?thesis by simp
    qed
  qed
qed

lemma Initialize_det_inv:
  assumes "Initialize W ifst osymbol new_Determinizer = Some (Inr st)"
  shows "det_inv st"
proof (cases "Start ifst \<noteq> kNoStateId")
  case False
  with assms have "st = new_Determinizer" by (simp add: Initialize_def)
  then show ?thesis
    by (simp add: det_inv_def hash_nonneg_def new_Determinizer_def)
next
  case True
  with assms have "output_arcs st = [[]] \<and> queue st = [0]
      \<and> (\<exists>k. minimal_hash st = [(k, 0)]) \<and> initial_hash st = []"
    by (auto simp: Initialize_def Let_def new_Determinizer_def
          split: option.splits sum.splits prod.splits if_splits)
  then show ?thesis
    by (auto simp: det_inv_def hash_nonneg_def arcs_det_def)
qed

lemma LatticeDeterminizer_det_inv:
  assumes "LatticeDeterminizer W ifst osymbol debug = Some (Inr det)"
  shows "det_inv det"
proof -
  from assms obtain st where i: "Initialize W ifst osymbol new_Determinizer = Some (Inr st)"
    and d: "Determinize W ifst osymbol debug st = Some (Inr det)"
    by (auto simp: LatticeDeterminizer_def split: option.splits sum.splits)
  from Determinize_det_inv [OF d] Initialize_det_inv [OF i] show ?thesis by simp
qed


section \<open>What the two Output functions write\<close>

lemma Output_add_states_eq:
  "Output_add_states z s n f = Inr f' \<Longrightarrow>
     states_m f' = states_m f @ replicate n (z, []) \<and> start_m f' = start_m f"
proof (induction n arbitrary: s f)
  case 0
  then show ?case by simp
next
  case (Suc n)
  from Suc.prems have
    "Output_add_states z (s + 1) n (f\<lparr>states_m := states_m f @ [(z, [])]\<rparr>) = Inr f'"
    by (simp add: AddState_def split: if_splits)
  from Suc.IH [OF this] show ?case by (simp add: replicate_app_Cons_same)
qed

lemma states_SetFinal:
  "states_m (SetFinal f s w) = (states_m f)[nat s := (w, snd (states_m f ! nat s))]"
  by (simp add: SetFinal_def)

lemma states_AddArc:
  "states_m (AddArc f s arc)
     = (states_m f)[nat s := (fst (states_m f ! nat s), snd (states_m f ! nat s) @ [arc])]"
  by (simp add: AddArc_def)

lemma Output_CompactArc_arcs_ilabels:
  assumes "Output_CompactArc_arcs repo this arcs f = Inr f'"
    and "nat this < length (states_m f)"
  shows "length (states_m f') = length (states_m f)
       \<and> (\<forall>s. s \<noteq> nat this \<longrightarrow> states_m f' ! s = states_m f ! s)
       \<and> map ilabel (snd (states_m f' ! nat this))
           = map ilabel (snd (states_m f ! nat this))
             @ map ilabel_t (filter (\<lambda>a. nextstate_t a \<noteq> kNoStateId) arcs)"
  using assms
proof (induction arcs arbitrary: f)
  case Nil
  then show ?case by simp
next
  case (Cons a arcs)
  from Cons.prems(1) obtain seq where seq: "ConvertToVector repo (string_t a) = Inr seq"
    by (auto split: sum.splits)
  show ?case
  proof (cases "nextstate_t a = kNoStateId")
    case True
    let ?f1 = "SetFinal f this (weight_t a, seq)"
    from Cons.prems(1) seq True have r: "Output_CompactArc_arcs repo this arcs ?f1 = Inr f'"
      by simp
    have l: "nat this < length (states_m ?f1)" using Cons.prems(2) by (simp add: states_SetFinal)
    from Cons.IH [OF r l] True Cons.prems(2) show ?thesis
      by (simp add: states_SetFinal)
  next
    case False
    let ?arc = "\<lparr>ilabel = ilabel_t a, olabel = ilabel_t a,
                     weight_a = (weight_t a, seq), nextstate = nextstate_t a\<rparr>"
    let ?f1 = "AddArc f this ?arc"
    from Cons.prems(1) seq False have r: "Output_CompactArc_arcs repo this arcs ?f1 = Inr f'"
      by simp
    have l: "nat this < length (states_m ?f1)" using Cons.prems(2) by (simp add: states_AddArc)
    from Cons.IH [OF r l] False Cons.prems(2) show ?thesis
      by (simp add: states_AddArc)
  qed
qed

lemma Output_CompactArc_states_ilabels:
  assumes "Output_CompactArc_states repo this vecs f = Inr f'"
    and "0 \<le> this" "nat this + length vecs \<le> length (states_m f)"
  shows "length (states_m f') = length (states_m f)
       \<and> (\<forall>s. s < nat this \<or> nat this + length vecs \<le> s \<longrightarrow> states_m f' ! s = states_m f ! s)
       \<and> (\<forall>j < length vecs.
            map ilabel (snd (states_m f' ! (nat this + j)))
              = map ilabel (snd (states_m f ! (nat this + j)))
                @ map ilabel_t (filter (\<lambda>a. nextstate_t a \<noteq> kNoStateId) (vecs ! j)))"
  using assms
proof (induction vecs arbitrary: this f)
  case Nil
  then show ?case by simp
next
  case (Cons vec vecs)
  from Cons.prems(1) obtain f1 where
    a: "Output_CompactArc_arcs repo this vec f = Inr f1"
    and r: "Output_CompactArc_states repo (this + 1) vecs f1 = Inr f'"
    by (auto split: sum.splits)
  from Cons.prems(3) have lt: "nat this < length (states_m f)" by simp
  from Output_CompactArc_arcs_ilabels [OF a lt]
  have len1: "length (states_m f1) = length (states_m f)"
    and oth1: "\<And>s. s \<noteq> nat this \<Longrightarrow> states_m f1 ! s = states_m f ! s"
    and lab1: "map ilabel (snd (states_m f1 ! nat this))
           = map ilabel (snd (states_m f ! nat this))
             @ map ilabel_t (filter (\<lambda>a. nextstate_t a \<noteq> kNoStateId) vec)"
    by blast+
  from Cons.prems(2) have n1: "nat (this + 1) = Suc (nat this)" "0 \<le> this + 1" by simp_all
  from Cons.prems(3) have b1: "nat (this + 1) + length vecs \<le> length (states_m f1)"
    by (simp add: n1 len1)
  from Cons.IH [OF r n1(2) b1]
  have len2: "length (states_m f') = length (states_m f1)"
    and oth2: "\<And>s. s < Suc (nat this) \<or> Suc (nat this) + length vecs \<le> s
                 \<Longrightarrow> states_m f' ! s = states_m f1 ! s"
    and lab2: "\<And>j. j < length vecs \<Longrightarrow>
            map ilabel (snd (states_m f' ! (Suc (nat this) + j)))
              = map ilabel (snd (states_m f1 ! (Suc (nat this) + j)))
                @ map ilabel_t (filter (\<lambda>a. nextstate_t a \<noteq> kNoStateId) (vecs ! j))"
    unfolding n1 by blast+
  have "states_m f' ! s = states_m f ! s"
    if "s < nat this \<or> nat this + length (vec # vecs) \<le> s" for s
  proof -
    from that have "states_m f' ! s = states_m f1 ! s" by (intro oth2) auto
    moreover from that have "states_m f1 ! s = states_m f ! s" by (intro oth1) auto
    ultimately show ?thesis by simp
  qed
  moreover have "map ilabel (snd (states_m f' ! (nat this + j)))
              = map ilabel (snd (states_m f ! (nat this + j)))
                @ map ilabel_t (filter (\<lambda>a. nextstate_t a \<noteq> kNoStateId) ((vec # vecs) ! j))"
    if "j < length (vec # vecs)" for j
  proof (cases j)
    case 0
    have "states_m f' ! nat this = states_m f1 ! nat this" by (intro oth2) simp
    with lab1 0 show ?thesis by simp
  next
    case (Suc j')
    with that have "j' < length vecs" by simp
    from lab2 [OF this] oth1 [of "Suc (nat this) + j'"] Suc show ?thesis by simp
  qed
  ultimately show ?case using len1 len2 by simp
qed

lemma output_arcs_FreeMostMemory [simp]: "output_arcs (FreeMostMemory st) = output_arcs st"
  by (simp add: FreeMostMemory_def)

lemma Output_CompactArc_deterministic:
  assumes d: "\<forall>arcs \<in> set (output_arcs st). distinct (map ilabel_t arcs)"
    and o: "Output_CompactArc W st ofst destroy = Inr (f, st1)"
  shows "deterministic_fst f"
proof (cases "output_arcs st = []")
  case True
  with o have "states_m f = []"
    by (auto simp: Output_CompactArc_def Let_def SetStart_def DeleteStates_def)
  then show ?thesis by (simp add: deterministic_fst_def)
next
  case False
  define n where "n = length (output_arcs st)"
  define st0 where "st0 = (if destroy then FreeMostMemory st else st)"
  have oa: "output_arcs st0 = output_arcs st" by (simp add: st0_def)
  from o False obtain f2 where
    a: "Output_add_states (Zero_w W, []) 0 n (SetStart (DeleteStates ofst) kNoStateId) = Inr f2"
    and s: "Output_CompactArc_states (repository st0) 0 (output_arcs st) (SetStart f2 0) = Inr f"
    unfolding Output_CompactArc_def Let_def n_def st0_def [symmetric] oa
    by (auto split: sum.splits)
  from Output_add_states_eq [OF a]
  have st2: "states_m (SetStart f2 0) = replicate n ((Zero_w W, []), [])"
    by (simp add: SetStart_def DeleteStates_def)
  have b: "nat 0 + length (output_arcs st) \<le> length (states_m (SetStart f2 0))"
    by (simp add: st2 n_def)
  from Output_CompactArc_states_ilabels [OF s _ b]
  have len: "length (states_m f) = n"
    and lab: "\<And>j. j < n \<Longrightarrow> map ilabel (snd (states_m f ! j))
              = map ilabel_t (filter (\<lambda>a. nextstate_t a \<noteq> kNoStateId) (output_arcs st ! j))"
    by (simp_all add: st2 n_def)
  show ?thesis
    unfolding deterministic_fst_def
  proof
    fix x assume "x \<in> set (states_m f)"
    then obtain j where j: "j < n" "x = states_m f ! j"
      by (auto simp: in_set_conv_nth len)
    from j(1) have "output_arcs st ! j \<in> set (output_arcs st)" by (simp add: n_def)
    with d have "distinct (map ilabel_t (output_arcs st ! j))" by blast
    then have "distinct (map ilabel_t (filter (\<lambda>a. nextstate_t a \<noteq> kNoStateId) (output_arcs st ! j)))"
      by (rule distinct_map_filter)
    with lab [OF j(1)] j(2) show "distinct (map ilabel (snd x))" by simp
  qed
qed

lemma length_chain_states [simp]: "length (chain_states W n ls) = Suc (length ls)"
  by (induction ls arbitrary: n) auto

lemma chain_states_last: "chain_states W n ls ! length ls = (Zero_w W, [])"
  by (induction ls arbitrary: n) auto

lemma chain_states_nth:
  "k < length ls \<Longrightarrow>
     chain_states W n ls ! k
       = (Zero_w W, [\<lparr>ilabel = 0, olabel = ls ! k, weight_a = One_w W, nextstate = int (n + k + 1)\<rparr>])"
proof (induction ls arbitrary: n k)
  case Nil
  then show ?case by simp
next
  case (Cons l ls)
  then show ?case by (cases k) auto
qed

lemma chain_states_one: "x \<in> set (chain_states W n ls) \<Longrightarrow> length (snd x) \<le> 1"
  by (induction ls arbitrary: n) auto

lemma Output_chain_eq:
  assumes "nat cur < length (states_m f)"
  shows "Output_chain W il w first (l # ls) cur f
           = (int (length (states_m f) + length ls),
              f\<lparr>states_m :=
                  (states_m f)[nat cur :=
                     (fst (states_m f ! nat cur),
                      snd (states_m f ! nat cur)
                        @ [\<lparr>ilabel = (if first then il else 0), olabel = l,
                             weight_a = (if first then w else One_w W),
                             nextstate = int (length (states_m f))\<rparr>])]
                  @ chain_states W (length (states_m f)) ls\<rparr>)"
  using assms
proof (induction ls arbitrary: cur f first l)
  case Nil
  then show ?case
    by (simp add: AddState_def AddArc_def list_update_append1 nth_append)
next
  case (Cons l2 ls)
  define n where "n = length (states_m f)"
  define arc where "arc = \<lparr>ilabel = (if first then il else 0), olabel = l,
                             weight_a = (if first then w else One_w W), nextstate = int n\<rparr>"
  define S1 where "S1 = (states_m f)[nat cur := (fst (states_m f ! nat cur),
                      snd (states_m f ! nat cur) @ [arc])]"
  define f2 where "f2 = f\<lparr>states_m := S1 @ [(Zero_w W, [])]\<rparr>"
  have lenS: "length S1 = n" by (simp add: S1_def n_def)
  have step: "Output_chain W il w first (l # l2 # ls) cur f
                = Output_chain W il w False (l2 # ls) (int n) f2"
    using Cons.prems
    by (simp add: AddState_def AddArc_def list_update_append1 nth_append n_def arc_def
          S1_def f2_def)
  have l2: "nat (int n) < length (states_m f2)" by (simp add: f2_def lenS)
  have upd: "(states_m f2)[nat (int n) := (fst (states_m f2 ! nat (int n)),
               snd (states_m f2 ! nat (int n))
                 @ [\<lparr>ilabel = (if False then il else 0), olabel = l2,
                      weight_a = (if False then w else One_w W),
                      nextstate = int (length (states_m f2))\<rparr>])]
             = S1 @ [(Zero_w W, [\<lparr>ilabel = 0, olabel = l2, weight_a = One_w W,
                                   nextstate = int (n + 1)\<rparr>])]"
    by (simp add: f2_def lenS [symmetric])
  have "Output_chain W il w False (l2 # ls) (int n) f2
          = (int (length (states_m f2) + length ls),
             f2\<lparr>states_m := (S1 @ [(Zero_w W, [\<lparr>ilabel = 0, olabel = l2, weight_a = One_w W,
                                   nextstate = int (n + 1)\<rparr>])])
                  @ chain_states W (length (states_m f2)) ls\<rparr>)"
    using Cons.IH [OF l2, of False l2] unfolding upd .
  also have "length (states_m f2) = n + 1" by (simp add: f2_def lenS)
  finally show ?case
    unfolding step by (simp add: f2_def S1_def arc_def n_def)
qed

lemma grow_lemma:
  assumes J: "fresh_ok n f" and t: "nat this < n"
    and s: "states_m f' = (states_m f)[nat this := (x, snd (states_m f ! nat this) @ new)] @ extra"
    and e: "\<forall>y \<in> set extra. length (snd y) \<le> 1"
  shows "fresh_ok n f'
       \<and> (\<forall>s < n. s \<noteq> nat this \<longrightarrow> snd (states_m f' ! s) = snd (states_m f ! s))
       \<and> map ilabel (snd (states_m f' ! nat this))
           = map ilabel (snd (states_m f ! nat this)) @ map ilabel new"
proof -
  define m where "m = length (states_m f)"
  from J have nm: "n \<le> m"
    and fr: "\<And>s. n \<le> s \<Longrightarrow> s < m \<Longrightarrow> length (snd (states_m f ! s)) \<le> 1"
    unfolding fresh_ok_def m_def by blast+
  have len: "length (states_m f') = m + length extra" by (simp add: s m_def)
  have old: "states_m f' ! k = (states_m f)[nat this := (x, snd (states_m f ! nat this) @ new)] ! k"
    if "k < m" for k using that by (simp add: s nth_append m_def)
  have new: "states_m f' ! k = extra ! (k - m)" if "m \<le> k" for k
    using that by (simp add: s nth_append m_def)
  have "length (snd (states_m f' ! k)) \<le> 1" if "n \<le> k" "k < length (states_m f')" for k
  proof (cases "k < m")
    case True
    from that(1) t have "k \<noteq> nat this" by simp
    with old [OF True] fr [OF that(1) True] show ?thesis by simp
  next
    case False
    with that(2) len have "k - m < length extra" by simp
    then have "extra ! (k - m) \<in> set extra" by simp
    with e new [of k] False show ?thesis by simp
  qed
  with nm len have 1: "fresh_ok n f'" unfolding fresh_ok_def by simp
  have 2: "snd (states_m f' ! k) = snd (states_m f ! k)" if "k < n" "k \<noteq> nat this" for k
    using old [of k] that nm by simp
  from t nm have "nat this < m" by simp
  with old [OF this] have 3: "map ilabel (snd (states_m f' ! nat this))
           = map ilabel (snd (states_m f ! nat this)) @ map ilabel new"
    by (simp add: m_def)
  from 1 2 3 show ?thesis by blast
qed

lemma set_update_one:
  assumes "\<forall>y \<in> set xs. length (snd y) \<le> 1" "length (snd v) \<le> 1"
  shows "\<forall>y \<in> set (xs[k := v]). length (snd y) \<le> 1"
  using assms set_update_subset_insert [of xs k v] by auto

lemma update_append_right:
  "(xs @ ys)[length xs + k := v] = xs @ ys[k := v]"
  by (simp add: list_update_append)

lemma nth_append_right:
  "(xs @ ys) ! (length xs + k) = ys ! k"
  by (simp add: nth_append)

lemma Output_Arc_temp_arc_step:
  assumes J: "fresh_ok n f" and t: "nat this < n"
    and o: "Output_Arc_temp_arc W repo this a f = Inr f'"
  shows "fresh_ok n f'
       \<and> (\<forall>s < n. s \<noteq> nat this \<longrightarrow> snd (states_m f' ! s) = snd (states_m f ! s))
       \<and> (\<exists>lab. map ilabel (snd (states_m f' ! nat this))
                   = map ilabel (snd (states_m f ! nat this)) @ lab
                \<and> subseq lab [out_label a])"
proof -
  define m where "m = length (states_m f)"
  from J t have tm: "nat this < length (states_m f)" unfolding fresh_ok_def by simp
  from o obtain seq where seq: "ConvertToVector repo (string_t a) = Inr seq"
    by (auto simp: Output_Arc_temp_arc_def split: sum.splits)
  have "\<exists>x new extra. states_m f' = (states_m f)[nat this := (x, snd (states_m f ! nat this) @ new)] @ extra
          \<and> (\<forall>y \<in> set extra. length (snd y) \<le> 1) \<and> subseq (map ilabel new) [out_label a]"
  proof (cases "nextstate_t a = kNoStateId")
    case True
    then have ol: "out_label a = 0" by (simp add: out_label_def)
    show ?thesis
    proof (cases seq)
      case Nil
      with o seq True have "f' = SetFinal f this (weight_t a)"
        by (simp add: Output_Arc_temp_arc_def)
      then have "states_m f' = (states_m f)[nat this := (weight_t a, snd (states_m f ! nat this) @ [])] @ []"
        by (simp add: states_SetFinal)
      moreover have "subseq (map ilabel ([] :: 'a Arc list)) [out_label a]" by simp
      ultimately show ?thesis by (metis empty_iff list.set(1))
    next
      case (Cons l ls)
      define arc where "arc = \<lparr>ilabel = (if True then 0 else 0), olabel = l,
                             weight_a = (if True then weight_t a else One_w W),
                             nextstate = int (length (states_m f))\<rparr>"
      define S1 where "S1 = (states_m f)[nat this := (fst (states_m f ! nat this),
                      snd (states_m f ! nat this) @ [arc])]"
      have lenS: "length S1 = m" by (simp add: S1_def m_def)
      from o seq True Cons Output_chain_eq [OF tm, of W 0 "weight_t a" True l ls]
      have "f' = SetFinal (f\<lparr>states_m := S1 @ chain_states W m ls\<rparr>) (int (m + length ls)) (One_w W)"
        by (simp add: Output_Arc_temp_arc_def S1_def arc_def m_def)
      then have "states_m f' = S1 @ (chain_states W m ls)[length ls := (One_w W, [])]"
        by (simp only: states_SetFinal nat_int lenS [symmetric])
           (simp add: update_append_right nth_append_right chain_states_last)
      moreover have "\<forall>y \<in> set ((chain_states W m ls)[length ls := (One_w W, [])]). length (snd y) \<le> 1"
        by (rule set_update_one) (auto dest: chain_states_one)
      moreover have "subseq (map ilabel [arc]) [out_label a]" by (simp add: arc_def ol)
      ultimately show ?thesis unfolding S1_def by blast
    qed
  next
    case False
    then have ol: "out_label a = ilabel_t a" by (simp add: out_label_def)
    show ?thesis
    proof (cases "butlast seq")
      case Nil
      then have le: "length seq \<le> 1" by (cases seq) (auto split: if_splits)
      define arc where "arc = \<lparr>ilabel = ilabel_t a, olabel = (if seq \<noteq> [] then last seq else 0),
                         weight_a = weight_t a, nextstate = nextstate_t a\<rparr>"
      from o seq False Nil le have "f' = AddArc f this arc"
        by (simp add: Output_Arc_temp_arc_def arc_def)
      then have "states_m f' = (states_m f)[nat this := (fst (states_m f ! nat this),
                      snd (states_m f ! nat this) @ [arc])] @ []"
        by (simp add: states_AddArc)
      moreover have "subseq (map ilabel [arc]) [out_label a]" by (simp add: arc_def ol)
      ultimately show ?thesis by (metis empty_iff list.set(1))
    next
      case (Cons l ls)
      then have gt: "\<not> length seq \<le> 1" "seq \<noteq> []" by (cases seq; auto split: if_splits)+
      define arc where "arc = \<lparr>ilabel = (if True then ilabel_t a else 0), olabel = l,
                             weight_a = (if True then weight_t a else One_w W),
                             nextstate = int (length (states_m f))\<rparr>"
      define arc2 where "arc2 = \<lparr>ilabel = 0, olabel = last seq, weight_a = One_w W,
                                nextstate = nextstate_t a\<rparr>"
      define S1 where "S1 = (states_m f)[nat this := (fst (states_m f ! nat this),
                      snd (states_m f ! nat this) @ [arc])]"
      have lenS: "length S1 = m" by (simp add: S1_def m_def)
      from o seq False Cons gt Output_chain_eq [OF tm, of W "ilabel_t a" "weight_t a" True l ls]
      have "f' = AddArc (f\<lparr>states_m := S1 @ chain_states W m ls\<rparr>) (int (m + length ls)) arc2"
        by (simp add: Output_Arc_temp_arc_def S1_def arc_def arc2_def m_def)
      then have "states_m f' = S1 @ (chain_states W m ls)[length ls := (Zero_w W, [arc2])]"
        by (simp only: states_AddArc nat_int lenS [symmetric])
           (simp add: update_append_right nth_append_right chain_states_last)
      moreover have "\<forall>y \<in> set ((chain_states W m ls)[length ls := (Zero_w W, [arc2])]). length (snd y) \<le> 1"
        by (rule set_update_one) (auto dest: chain_states_one)
      moreover have "subseq (map ilabel [arc]) [out_label a]" by (simp add: arc_def ol)
      ultimately show ?thesis unfolding S1_def by blast
    qed
  qed
  then obtain x new extra where
    s: "states_m f' = (states_m f)[nat this := (x, snd (states_m f ! nat this) @ new)] @ extra"
    and e: "\<forall>y \<in> set extra. length (snd y) \<le> 1"
    and l: "subseq (map ilabel new) [out_label a]" by blast
  from grow_lemma [OF J t s e] l show ?thesis by blast
qed

lemma Output_Arc_arcs_step:
  assumes "fresh_ok n f" "nat this < n" "Output_Arc_arcs W repo this arcs f = Inr f'"
  shows "fresh_ok n f'
       \<and> (\<forall>s < n. s \<noteq> nat this \<longrightarrow> snd (states_m f' ! s) = snd (states_m f ! s))
       \<and> (\<exists>labs. map ilabel (snd (states_m f' ! nat this))
                   = map ilabel (snd (states_m f ! nat this)) @ labs
                \<and> subseq labs (map out_label arcs))"
  using assms
proof (induction arcs arbitrary: f)
  case Nil
  then show ?case by simp
next
  case (Cons a arcs)
  from Cons.prems(3) obtain f1 where
    t: "Output_Arc_temp_arc W repo this a f = Inr f1"
    and r: "Output_Arc_arcs W repo this arcs f1 = Inr f'"
    by (auto split: sum.splits)
  from Output_Arc_temp_arc_step [OF Cons.prems(1,2) t] obtain lab where
    j1: "fresh_ok n f1"
    and o1: "\<And>s. s < n \<Longrightarrow> s \<noteq> nat this \<Longrightarrow> snd (states_m f1 ! s) = snd (states_m f ! s)"
    and l1: "map ilabel (snd (states_m f1 ! nat this))
               = map ilabel (snd (states_m f ! nat this)) @ lab"
       "subseq lab [out_label a]" by blast
  from Cons.IH [OF j1 Cons.prems(2) r] obtain labs where
    j2: "fresh_ok n f'"
    and o2: "\<And>s. s < n \<Longrightarrow> s \<noteq> nat this \<Longrightarrow> snd (states_m f' ! s) = snd (states_m f1 ! s)"
    and l2: "map ilabel (snd (states_m f' ! nat this))
               = map ilabel (snd (states_m f1 ! nat this)) @ labs"
       "subseq labs (map out_label arcs)" by blast
  from l1(2) l2(2) have "subseq (lab @ labs) ([out_label a] @ map out_label arcs)"
    by (rule list_emb_append_mono)
  then have "subseq (lab @ labs) (map out_label (a # arcs))" by simp
  moreover have "map ilabel (snd (states_m f' ! nat this))
               = map ilabel (snd (states_m f ! nat this)) @ (lab @ labs)"
    using l1(1) l2(1) by simp
  moreover have "\<forall>s < n. s \<noteq> nat this \<longrightarrow> snd (states_m f' ! s) = snd (states_m f ! s)"
    using o1 o2 by simp
  ultimately show ?case using j2 by blast
qed

lemma Output_Arc_states_step:
  assumes "fresh_ok n f" "0 \<le> this" "nat this + length vecs \<le> n"
    and "Output_Arc_states W repo this vecs f = Inr f'"
  shows "fresh_ok n f'
       \<and> (\<forall>s < n. s < nat this \<or> nat this + length vecs \<le> s
              \<longrightarrow> snd (states_m f' ! s) = snd (states_m f ! s))
       \<and> (\<forall>j < length vecs.
            \<exists>labs. map ilabel (snd (states_m f' ! (nat this + j)))
                     = map ilabel (snd (states_m f ! (nat this + j))) @ labs
                 \<and> subseq labs (map out_label (vecs ! j)))"
  using assms
proof (induction vecs arbitrary: this f)
  case Nil
  then show ?case by simp
next
  case (Cons vec vecs)
  from Cons.prems(4) obtain f1 where
    a: "Output_Arc_arcs W repo this vec f = Inr f1"
    and r: "Output_Arc_states W repo (this + 1) vecs f1 = Inr f'"
    by (auto split: sum.splits)
  from Cons.prems(3) have lt: "nat this < n" by simp
  from Output_Arc_arcs_step [OF Cons.prems(1) lt a] obtain labs0 where
    j1: "fresh_ok n f1"
    and o1: "\<And>s. s < n \<Longrightarrow> s \<noteq> nat this \<Longrightarrow> snd (states_m f1 ! s) = snd (states_m f ! s)"
    and l1: "map ilabel (snd (states_m f1 ! nat this))
               = map ilabel (snd (states_m f ! nat this)) @ labs0"
       "subseq labs0 (map out_label vec)" by blast
  from Cons.prems(2) have n1: "nat (this + 1) = Suc (nat this)" "0 \<le> this + 1" by simp_all
  from Cons.prems(3) have b1: "nat (this + 1) + length vecs \<le> n" by (simp add: n1)
  from Cons.IH [OF j1 n1(2) b1 r]
  have j2: "fresh_ok n f'"
    and o2: "\<And>s. s < n \<Longrightarrow> s < Suc (nat this) \<or> Suc (nat this) + length vecs \<le> s
                 \<Longrightarrow> snd (states_m f' ! s) = snd (states_m f1 ! s)"
    and l2: "\<And>j. j < length vecs \<Longrightarrow>
            \<exists>labs. map ilabel (snd (states_m f' ! (Suc (nat this) + j)))
                     = map ilabel (snd (states_m f1 ! (Suc (nat this) + j))) @ labs
                 \<and> subseq labs (map out_label (vecs ! j))"
    unfolding n1 by blast+
  have "snd (states_m f' ! s) = snd (states_m f ! s)"
    if "s < n" "s < nat this \<or> nat this + length (vec # vecs) \<le> s" for s
  proof -
    from that have "snd (states_m f' ! s) = snd (states_m f1 ! s)" by (intro o2) auto
    moreover from that have "snd (states_m f1 ! s) = snd (states_m f ! s)" by (intro o1) auto
    ultimately show ?thesis by simp
  qed
  moreover have "\<exists>labs. map ilabel (snd (states_m f' ! (nat this + j)))
                     = map ilabel (snd (states_m f ! (nat this + j))) @ labs
                 \<and> subseq labs (map out_label ((vec # vecs) ! j))"
    if "j < length (vec # vecs)" for j
  proof (cases j)
    case 0
    from lt have "snd (states_m f' ! nat this) = snd (states_m f1 ! nat this)"
      by (intro o2) simp_all
    with l1 0 show ?thesis by auto
  next
    case (Suc j')
    with that have j': "j' < length vecs" by simp
    with Cons.prems(3) have "Suc (nat this) + j' < n" by simp
    from o1 [OF this] have "snd (states_m f1 ! (Suc (nat this) + j')) = snd (states_m f ! (Suc (nat this) + j'))"
      by simp
    with l2 [OF j'] Suc show ?thesis by simp
  qed
  ultimately show ?case using j2 by blast
qed

lemma subseq_distinct: "subseq xs ys \<Longrightarrow> distinct ys \<Longrightarrow> distinct xs"
  using subseqs_distinctD [of xs ys] by simp

lemma Output_Arc_deterministic:
  assumes d: "\<forall>arcs \<in> set (output_arcs st). arcs_det arcs"
    and o: "Output_Arc W st ofst destroy = Inr (f, st1)"
  shows "deterministic_fst f"
proof (cases "output_arcs st = []")
  case True
  with o have "states_m f = []"
    by (auto simp: Output_Arc_def Let_def SetStart_def DeleteStates_def)
  then show ?thesis by (simp add: deterministic_fst_def)
next
  case False
  define n where "n = length (output_arcs st)"
  define st0 where "st0 = (if destroy then FreeMostMemory st else st)"
  have oa: "output_arcs st0 = output_arcs st" by (simp add: st0_def)
  from o False obtain f2 where
    a: "Output_add_states (Zero_w W) 0 n (DeleteStates ofst) = Inr f2"
    and s: "Output_Arc_states W (repository st0) 0 (output_arcs st) (SetStart f2 0) = Inr f"
    unfolding Output_Arc_def Let_def n_def st0_def [symmetric] oa
    by (auto split: sum.splits)
  from Output_add_states_eq [OF a]
  have st2: "states_m (SetStart f2 0) = replicate n (Zero_w W, [])"
    by (simp add: SetStart_def DeleteStates_def)
  have J: "fresh_ok n (SetStart f2 0)" by (simp add: fresh_ok_def st2)
  have b: "nat 0 + length (output_arcs st) \<le> n" by (simp add: n_def)
  from Output_Arc_states_step [OF J _ b s]
  have J': "fresh_ok n f"
    and lab: "\<And>j. j < n \<Longrightarrow> \<exists>labs. map ilabel (snd (states_m f ! j)) = labs
                 \<and> subseq labs (map out_label (output_arcs st ! j))"
    by (simp_all add: st2 n_def)
  show ?thesis
    unfolding deterministic_fst_def
  proof
    fix x assume "x \<in> set (states_m f)"
    then obtain j where j: "j < length (states_m f)" "x = states_m f ! j"
      by (auto simp: in_set_conv_nth)
    show "distinct (map ilabel (snd x))"
    proof (cases "j < n")
      case True
      then have "output_arcs st ! j \<in> set (output_arcs st)" by (simp add: n_def)
      with d have ad: "arcs_det (output_arcs st ! j)" by blast
      then have eq: "map out_label (output_arcs st ! j) = map ilabel_t (output_arcs st ! j)"
        by (auto simp: arcs_det_def out_label_def)
      from ad have "distinct (map ilabel_t (output_arcs st ! j))" by (simp add: arcs_det_def)
      then have "distinct (map out_label (output_arcs st ! j))" by (simp only: eq)
      with lab [OF True] j(2) show ?thesis by (auto dest: subseq_distinct)
    next
      case False
      with J' j(1) have "length (snd (states_m f ! j)) \<le> 1" unfolding fresh_ok_def by simp
      then have "length (map ilabel (snd x)) \<le> 1" by (simp add: j(2))
      then show ?thesis by (cases "map ilabel (snd x)") auto
    qed
  qed
qed


section \<open>Determinism of the result\<close>

text \<open>
  Runs that return. Where the unassigned \<open>next_common_str\<close> of
  \<open>ProcessTransition\<close> is \<open>NULL\<close>: \<open>branch_fst\<close> with \<open>Output\<close> keeping its
  memory, and \<open>plain_fst\<close>, whose strings are all empty, through
  \<open>DeterminizeLattice\<close>. Where it points to no entry: the constructor still returns on
  \<open>plain_fst\<close>, with that pointer as the string of the recorded transitions, and
  \<open>Output\<close> stops when it reads it.
\<close>

lemma branch_run:
  "(case LatticeDeterminizer tropical branch_fst olabel False of
      Some (Inr d) \<Rightarrow>
        length (output_arcs d) = 3
        \<and> (case Output_Arc tropical d old_fst False of
             Inr (f, d1) \<Rightarrow> length (states_m f) = 3 | Inl e \<Rightarrow> False)
        \<and> (case Output_CompactArc tropical d old_compact_fst False of
             Inr (f, d1) \<Rightarrow> length (states_m f) = 3 | Inl e \<Rightarrow> False)
    | _ \<Rightarrow> False)"
  by code_simp

lemma plain_run:
  "(case DeterminizeLattice_Arc tropical plain_fst ilabel False old_fst of
      Some (Inr f) \<Rightarrow> length (states_m f) = 3 | _ \<Rightarrow> False)
   \<and> (case DeterminizeLattice_CompactArc tropical plain_fst ilabel False old_compact_fst of
      Some (Inr f) \<Rightarrow> length (states_m f) = 3 | _ \<Rightarrow> False)"
  by code_simp

lemma garbage_run:
  "(case LatticeDeterminizer (tropical\<lparr>Default_s := 9\<rparr>) plain_fst ilabel False of
      Some (Inr d) \<Rightarrow>
        length (output_arcs d) = 3
        \<and> Output_Arc (tropical\<lparr>Default_s := 9\<rparr>) d old_fst False = Inl InvalidPointer
    | _ \<Rightarrow> False)"
  by code_simp

text \<open>
  Claim C2. Whenever the determinizer returns, every state of its table
  \<open>output_arcs_\<close> has at most one recorded transition per input label (and at most one
  final weight, the only record with label 0), and whenever an \<open>Output\<close> function or
  \<open>DeterminizeLattice\<close> returns an automaton, no two arcs leaving one of its states
  share an input label. This holds for every input automaton, weight type, reading of
  \<open>osymbol\<close>, destination and value of \<open>destroy\<close>.
\<close>

theorem determinized_result_deterministic:
  "(LatticeDeterminizer W ifst osymbol debug = Some (Inr det) \<longrightarrow>
      (\<forall>arcs \<in> set (output_arcs det). arcs_det arcs)
    \<and> (\<forall>ofst destroy f det1.
          Output_Arc W det ofst destroy = Inr (f, det1) \<longrightarrow> deterministic_fst f)
    \<and> (\<forall>cofst destroy cf det1.
          Output_CompactArc W det cofst destroy = Inr (cf, det1) \<longrightarrow> deterministic_fst cf))
   \<and> (DeterminizeLattice_Arc W ifst osymbol debug ofst = Some (Inr f) \<longrightarrow> deterministic_fst f)
   \<and> (DeterminizeLattice_CompactArc W ifst osymbol debug cofst = Some (Inr cf) \<longrightarrow>
        deterministic_fst cf)"
proof -
  have table: "\<forall>arcs \<in> set (output_arcs d). arcs_det arcs"
    if "LatticeDeterminizer W ifst osymbol debug = Some (Inr d)" for d
  proof
    fix arcs assume "arcs \<in> set (output_arcs d)"
    then obtain s where "s < length (output_arcs d)" "arcs = output_arcs d ! s"
      by (auto simp: in_set_conv_nth)
    with LatticeDeterminizer_det_inv [OF that] show "arcs_det arcs"
      unfolding det_inv_def by blast
  qed
  have dist: "\<forall>arcs \<in> set (output_arcs d). distinct (map ilabel_t arcs)"
    if "LatticeDeterminizer W ifst osymbol debug = Some (Inr d)" for d
    using table [OF that] by (auto simp: arcs_det_def)
  have 1: "LatticeDeterminizer W ifst osymbol debug = Some (Inr det) \<longrightarrow>
      (\<forall>arcs \<in> set (output_arcs det). arcs_det arcs)
    \<and> (\<forall>ofst destroy f det1.
          Output_Arc W det ofst destroy = Inr (f, det1) \<longrightarrow> deterministic_fst f)
    \<and> (\<forall>cofst destroy cf det1.
          Output_CompactArc W det cofst destroy = Inr (cf, det1) \<longrightarrow> deterministic_fst cf)"
    using table dist
    by (blast intro: Output_Arc_deterministic Output_CompactArc_deterministic)
  have 2: "DeterminizeLattice_Arc W ifst osymbol debug ofst = Some (Inr f) \<longrightarrow> deterministic_fst f"
  proof
    assume "DeterminizeLattice_Arc W ifst osymbol debug ofst = Some (Inr f)"
    then obtain d d1 where "LatticeDeterminizer W ifst osymbol debug = Some (Inr d)"
      "Output_Arc W d ofst True = Inr (f, d1)"
      by (auto simp: DeterminizeLattice_Arc_def split: option.splits sum.splits prod.splits)
    with table show "deterministic_fst f" by (blast intro: Output_Arc_deterministic)
  qed
  have 3: "DeterminizeLattice_CompactArc W ifst osymbol debug cofst = Some (Inr cf) \<longrightarrow>
        deterministic_fst cf"
  proof
    assume "DeterminizeLattice_CompactArc W ifst osymbol debug cofst = Some (Inr cf)"
    then obtain d d1 where "LatticeDeterminizer W ifst osymbol debug = Some (Inr d)"
      "Output_CompactArc W d cofst True = Inr (cf, d1)"
      by (auto simp: DeterminizeLattice_CompactArc_def split: option.splits sum.splits prod.splits)
    with dist show "deterministic_fst cf" by (blast intro: Output_CompactArc_deterministic)
  qed
  from 1 2 3 show ?thesis by blast
qed

theorem determinized_result_deterministic_witness:
  "(\<exists>det f det1 cf det2.
      LatticeDeterminizer tropical branch_fst olabel False = Some (Inr det)
    \<and> length (output_arcs det) = 3
    \<and> list_all arcs_det (output_arcs det)
    \<and> Output_Arc tropical det old_fst False = Inr (f, det1)
    \<and> length (states_m f) = 3 \<and> deterministic_fst f
    \<and> Output_CompactArc tropical det old_compact_fst False = Inr (cf, det2)
    \<and> length (states_m cf) = 3 \<and> deterministic_fst cf)
   \<and> (\<exists>f. DeterminizeLattice_Arc tropical plain_fst ilabel False old_fst = Some (Inr f)
          \<and> length (states_m f) = 3 \<and> deterministic_fst f)
   \<and> (\<exists>cf. DeterminizeLattice_CompactArc tropical plain_fst ilabel False old_compact_fst
             = Some (Inr cf)
          \<and> length (states_m cf) = 3 \<and> deterministic_fst cf)
   \<and> (\<exists>det. LatticeDeterminizer (tropical\<lparr>Default_s := 9\<rparr>) plain_fst ilabel False
               = Some (Inr det)
          \<and> length (output_arcs det) = 3 \<and> list_all arcs_det (output_arcs det))"
proof -
  from branch_run obtain det f det1 cf det2 where
    b: "LatticeDeterminizer tropical branch_fst olabel False = Some (Inr det)"
       "length (output_arcs det) = 3"
       "Output_Arc tropical det old_fst False = Inr (f, det1)" "length (states_m f) = 3"
       "Output_CompactArc tropical det old_compact_fst False = Inr (cf, det2)"
       "length (states_m cf) = 3"
    by (auto split: option.splits sum.splits prod.splits)
  from plain_run obtain pf pcf where
    p: "DeterminizeLattice_Arc tropical plain_fst ilabel False old_fst = Some (Inr pf)"
       "length (states_m pf) = 3"
       "DeterminizeLattice_CompactArc tropical plain_fst ilabel False old_compact_fst
          = Some (Inr pcf)" "length (states_m pcf) = 3"
    by (auto split: option.splits sum.splits)
  note t1 = determinized_result_deterministic
    [where W = tropical and ifst = branch_fst and osymbol = olabel and debug = False
       and det = det and ofst = old_fst and cofst = old_compact_fst]
  note t2 = determinized_result_deterministic
    [where W = tropical and ifst = plain_fst and osymbol = ilabel and debug = False
       and ofst = old_fst and cofst = old_compact_fst and f = pf and cf = pcf]
  from garbage_run obtain gdet where
    g: "LatticeDeterminizer (tropical\<lparr>Default_s := 9\<rparr>) plain_fst ilabel False
          = Some (Inr gdet)" "length (output_arcs gdet) = 3"
    by (auto split: option.splits sum.splits)
  note t3 = determinized_result_deterministic
    [where W = "tropical\<lparr>Default_s := 9\<rparr>" and ifst = plain_fst and osymbol = ilabel
       and debug = False and det = gdet and ofst = old_fst and cofst = old_compact_fst]
  from t3 g(1) have a6: "list_all arcs_det (output_arcs gdet)" by (simp add: list_all_iff)
  from t1 b(1) have a1: "list_all arcs_det (output_arcs det)" by (simp add: list_all_iff)
  from t1 b(1,3) have a2: "deterministic_fst f" by blast
  from t1 b(1,5) have a3: "deterministic_fst cf" by blast
  from t2 p(1) have a4: "deterministic_fst pf" by blast
  from t2 p(3) have a5: "deterministic_fst pcf" by blast
  from b a1 a2 a3 have c1: "\<exists>det f det1 cf det2.
      LatticeDeterminizer tropical branch_fst olabel False = Some (Inr det)
    \<and> length (output_arcs det) = 3
    \<and> list_all arcs_det (output_arcs det)
    \<and> Output_Arc tropical det old_fst False = Inr (f, det1)
    \<and> length (states_m f) = 3 \<and> deterministic_fst f
    \<and> Output_CompactArc tropical det old_compact_fst False = Inr (cf, det2)
    \<and> length (states_m cf) = 3 \<and> deterministic_fst cf" by blast
  from p a4 have c2: "\<exists>f. DeterminizeLattice_Arc tropical plain_fst ilabel False old_fst
          = Some (Inr f) \<and> length (states_m f) = 3 \<and> deterministic_fst f" by blast
  from p a5 have c3: "\<exists>cf. DeterminizeLattice_CompactArc tropical plain_fst ilabel False
          old_compact_fst = Some (Inr cf) \<and> length (states_m cf) = 3 \<and> deterministic_fst cf"
    by blast
  from g a6 have c4: "\<exists>det. LatticeDeterminizer (tropical\<lparr>Default_s := 9\<rparr>) plain_fst ilabel
          False = Some (Inr det)
          \<and> length (output_arcs det) = 3 \<and> list_all arcs_det (output_arcs det)" by blast
  from c1 c2 c3 c4 show ?thesis by (intro conjI)
qed


section \<open>The chains of the expanded output\<close>

text \<open>
  What \<open>Output\<close> writes for one recorded arc whose string can be read from the
  repository. For a transition with the string \<open>seq\<close> of length L (at least 1): one
  more arc on the state, with the input label, the weight and the first output label, and
  L - 1 new states, each with one arc of epsilon input and weight \<open>One\<close> that carries
  the next output label; the last arc of the chain goes to the transition's destination.
  For a final weight: the final weight of the state when the string is empty, else a chain
  of L new states reached by L arcs of epsilon input, the weight on the first, the last
  state final with weight \<open>One\<close>.
\<close>

lemma chain_states_close:
  "(chain_states W n ls)[length ls :=
       (Zero_w W, [\<lparr>ilabel = 0, olabel = z, weight_a = One_w W, nextstate = d\<rparr>])]
   = map (\<lambda>j. (Zero_w W,
               [\<lparr>ilabel = 0, olabel = (ls @ [z]) ! j, weight_a = One_w W,
                 nextstate = (if Suc j < length (ls @ [z]) then int (n + j + 1) else d)\<rparr>]))
       [0..<length (ls @ [z])]"
proof (induction ls arbitrary: n)
  case Nil
  then show ?case by simp
next
  case (Cons l ls)
  have "map (\<lambda>j. (Zero_w W,
               [\<lparr>ilabel = 0, olabel = ((l # ls) @ [z]) ! j, weight_a = One_w W,
                 nextstate = (if Suc j < length ((l # ls) @ [z]) then int (n + j + 1) else d)\<rparr>]))
       [0..<Suc (length (ls @ [z]))]
     = (Zero_w W, [\<lparr>ilabel = 0, olabel = l, weight_a = One_w W, nextstate = int (n + 1)\<rparr>])
       # map (\<lambda>j. (Zero_w W,
               [\<lparr>ilabel = 0, olabel = (ls @ [z]) ! j, weight_a = One_w W,
                 nextstate = (if Suc j < length (ls @ [z]) then int (n + 1 + j + 1) else d)\<rparr>]))
       [0..<length (ls @ [z])]"
    by (subst map_upt_Suc) simp
  with Cons.IH [of "n + 1"] show ?case by simp
qed

lemma chain_states_final:
  "(chain_states W n ls)[length ls := (One_w W, [])]
   = map (\<lambda>j. (if j = length ls then One_w W else Zero_w W,
               if j < length ls
               then [\<lparr>ilabel = 0, olabel = ls ! j, weight_a = One_w W,
                      nextstate = int (n + j + 1)\<rparr>]
               else []))
       [0..<Suc (length ls)]"
proof (induction ls arbitrary: n)
  case Nil
  then show ?case by simp
next
  case (Cons l ls)
  have "map (\<lambda>j. (if j = length (l # ls) then One_w W else Zero_w W,
               if j < length (l # ls)
               then [\<lparr>ilabel = 0, olabel = (l # ls) ! j, weight_a = One_w W,
                      nextstate = int (n + j + 1)\<rparr>]
               else []))
       [0..<Suc (Suc (length ls))]
     = (Zero_w W, [\<lparr>ilabel = 0, olabel = l, weight_a = One_w W, nextstate = int (n + 1)\<rparr>])
       # map (\<lambda>j. (if j = length ls then One_w W else Zero_w W,
               if j < length ls
               then [\<lparr>ilabel = 0, olabel = ls ! j, weight_a = One_w W,
                      nextstate = int (n + 1 + j + 1)\<rparr>]
               else []))
       [0..<Suc (length ls)]"
    by (subst map_upt_Suc) simp
  with Cons.IH [of "n + 1"] show ?case by simp
qed

lemma Output_Arc_transition_chain:
  assumes seq: "ConvertToVector repo (string_t a) = Inr seq" and ne: "seq \<noteq> []"
    and nf: "nextstate_t a \<noteq> kNoStateId"
    and tm: "nat this < length (states_m f)"
  shows "Output_Arc_temp_arc W repo this a f =
           Inr (f\<lparr>states_m :=
             (states_m f)[nat this :=
                (fst (states_m f ! nat this),
                 snd (states_m f ! nat this)
                   @ [\<lparr>ilabel = ilabel_t a, olabel = hd seq, weight_a = weight_t a,
                        nextstate = (if tl seq = [] then nextstate_t a
                                     else int (length (states_m f)))\<rparr>])]
             @ map (\<lambda>j. (Zero_w W,
                    [\<lparr>ilabel = 0, olabel = tl seq ! j, weight_a = One_w W,
                      nextstate = (if Suc j < length (tl seq)
                                   then int (length (states_m f) + j + 1)
                                   else nextstate_t a)\<rparr>]))
                 [0..<length (tl seq)]\<rparr>)"
proof -
  from ne obtain l t where lt: "seq = l # t" by (cases seq) auto
  show ?thesis
  proof (cases "t = []")
    case True
    with seq nf lt show ?thesis
      by (simp add: Output_Arc_temp_arc_def AddArc_def)
  next
    case False
    define ls where "ls = butlast t"
    define z where "z = last t"
    from False have t: "t = ls @ [z]" by (simp add: ls_def z_def)
    define m where "m = length (states_m f)"
    define arc where "arc = \<lparr>ilabel = (if True then ilabel_t a else 0), olabel = l,
                           weight_a = (if True then weight_t a else One_w W),
                           nextstate = int (length (states_m f))\<rparr>"
    define arc2 where "arc2 = \<lparr>ilabel = 0, olabel = z, weight_a = One_w W,
                              nextstate = nextstate_t a\<rparr>"
    define S1 where "S1 = (states_m f)[nat this := (fst (states_m f ! nat this),
                    snd (states_m f ! nat this) @ [arc])]"
    have lenS: "length S1 = m" by (simp add: S1_def m_def)
    have bl: "butlast seq = l # ls" "last seq = z" "\<not> length seq \<le> 1" "seq \<noteq> []"
      by (simp_all add: lt t)
    from seq nf bl Output_chain_eq [OF tm, of W "ilabel_t a" "weight_t a" True l ls]
    have "Output_Arc_temp_arc W repo this a f
            = Inr (AddArc (f\<lparr>states_m := S1 @ chain_states W m ls\<rparr>) (int (m + length ls)) arc2)"
      by (simp add: Output_Arc_temp_arc_def S1_def arc_def arc2_def m_def)
    also have "AddArc (f\<lparr>states_m := S1 @ chain_states W m ls\<rparr>) (int (m + length ls)) arc2
                 = f\<lparr>states_m := S1 @ (chain_states W m ls)[length ls := (Zero_w W, [arc2])]\<rparr>"
      by (simp only: AddArc_def nat_int lenS [symmetric])
         (simp add: update_append_right nth_append_right chain_states_last)
    also have "(chain_states W m ls)[length ls := (Zero_w W, [arc2])]
                 = map (\<lambda>j. (Zero_w W,
                    [\<lparr>ilabel = 0, olabel = t ! j, weight_a = One_w W,
                      nextstate = (if Suc j < length t then int (m + j + 1)
                                   else nextstate_t a)\<rparr>])) [0..<length t]"
      unfolding arc2_def t by (rule chain_states_close)
    finally show ?thesis
      using False by (simp add: lt S1_def arc_def m_def)
  qed
qed

lemma Output_Arc_final_chain:
  assumes seq: "ConvertToVector repo (string_t a) = Inr seq"
    and fin: "nextstate_t a = kNoStateId"
    and tm: "nat this < length (states_m f)"
  shows "Output_Arc_temp_arc W repo this a f =
           Inr (if seq = [] then SetFinal f this (weight_t a)
                else f\<lparr>states_m :=
                  (states_m f)[nat this :=
                     (fst (states_m f ! nat this),
                      snd (states_m f ! nat this)
                        @ [\<lparr>ilabel = 0, olabel = hd seq, weight_a = weight_t a,
                             nextstate = int (length (states_m f))\<rparr>])]
                  @ map (\<lambda>j. (if j = length (tl seq) then One_w W else Zero_w W,
                         if j < length (tl seq)
                         then [\<lparr>ilabel = 0, olabel = tl seq ! j, weight_a = One_w W,
                                nextstate = int (length (states_m f) + j + 1)\<rparr>]
                         else []))
                      [0..<Suc (length (tl seq))]\<rparr>)"
proof (cases seq)
  case Nil
  with seq fin show ?thesis by (simp add: Output_Arc_temp_arc_def)
next
  case (Cons l ls)
  define m where "m = length (states_m f)"
  define arc where "arc = \<lparr>ilabel = (if True then 0 else 0), olabel = l,
                         weight_a = (if True then weight_t a else One_w W),
                         nextstate = int (length (states_m f))\<rparr>"
  define S1 where "S1 = (states_m f)[nat this := (fst (states_m f ! nat this),
                  snd (states_m f ! nat this) @ [arc])]"
  have lenS: "length S1 = m" by (simp add: S1_def m_def)
  from seq fin Cons Output_chain_eq [OF tm, of W 0 "weight_t a" True l ls]
  have "Output_Arc_temp_arc W repo this a f
          = Inr (SetFinal (f\<lparr>states_m := S1 @ chain_states W m ls\<rparr>) (int (m + length ls))
                   (One_w W))"
    by (simp add: Output_Arc_temp_arc_def S1_def arc_def m_def)
  also have "SetFinal (f\<lparr>states_m := S1 @ chain_states W m ls\<rparr>) (int (m + length ls)) (One_w W)
               = f\<lparr>states_m := S1 @ (chain_states W m ls)[length ls := (One_w W, [])]\<rparr>"
    by (simp only: SetFinal_def nat_int lenS [symmetric])
       (simp add: update_append_right nth_append_right chain_states_last)
  finally show ?thesis
    by (simp add: Cons S1_def arc_def m_def chain_states_final)
qed

text \<open>
  Claim C8. With \<open>destroy = true\<close>, the default and what \<open>DeterminizeLattice\<close>
  passes, \<open>Output\<close> calls \<open>FreeMostMemory\<close>, which destroys the repository, before
  it reads the strings of the recorded arcs: for a transition with the string 7 8 the read
  is of a deleted entry and no chain is written. With \<open>destroy = false\<close> the same
  transition gives the chain of the claim.
\<close>

theorem Output_Arc_reads_destroyed_strings:
  "ConvertToVector (repository string_det) (string_t (hd (hd (output_arcs string_det))))
     = Inr [7, 8]
   \<and> Output_Arc tropical string_det old_fst False
       = Inr (\<lparr>start_m = 0,
               states_m =
                 [(None, [\<lparr>ilabel = 1, olabel = 7, weight_a = Some 3, nextstate = 1\<rparr>]),
                  (None, [\<lparr>ilabel = 0, olabel = 8, weight_a = Some 0, nextstate = 0\<rparr>])]\<rparr>,
              string_det)
   \<and> Output_Arc tropical string_det old_fst True = Inl InvalidPointer
   \<and> DeterminizeLattice_Arc tropical branch_fst olabel False old_fst
       = Some (Inl InvalidPointer)"
  by code_simp


end
